theory Spec2Isabelle
  imports Main "HOL-Library.Sublist"
begin

section \<open>Text: characters and the string methods used by PUBLISH.py\<close>

text \<open>
  Python strings are sequences of code points. They are modelled by \<open>string\<close>; a
  \<open>char\<close> stands for a code point below 256. Within that range \<open>str.isspace\<close> and
  the regular-expression class \<open>\s\<close> accept the same twelve characters.
\<close>

definition LF :: char where
  "LF = CHR 0x0A"

definition CR :: char where
  "CR = CHR 0x0D"

definition DQ :: char where
  "DQ = CHR 0x22"

definition SQ :: char where
  "SQ = CHR 0x27"

definition isspace :: "char \<Rightarrow> bool" where
  "isspace c = (c \<in> set [CHR 0x09, CHR 0x0A, CHR 0x0B, CHR 0x0C, CHR 0x0D,
                          CHR 0x1C, CHR 0x1D, CHR 0x1E, CHR 0x1F, CHR 0x20,
                          CHR 0x85, CHR 0xA0])"

text \<open>\<open>s.lstrip(chars)\<close>, \<open>s.rstrip(chars)\<close> and \<open>s.strip(chars)\<close>, for a class of characters.\<close>

definition lstrip :: "(char \<Rightarrow> bool) \<Rightarrow> string \<Rightarrow> string" where
  "lstrip P s = dropWhile P s"

definition rstrip :: "(char \<Rightarrow> bool) \<Rightarrow> string \<Rightarrow> string" where
  "rstrip P s = rev (dropWhile P (rev s))"

definition strip :: "(char \<Rightarrow> bool) \<Rightarrow> string \<Rightarrow> string" where
  "strip P s = rstrip P (lstrip P s)"

text \<open>\<open>s.strip()\<close> removes whitespace; \<open>s.strip(cs)\<close> removes the characters of \<open>cs\<close>.\<close>

definition py_strip :: "string \<Rightarrow> string" where
  "py_strip s = strip isspace s"

definition strip_chars :: "string \<Rightarrow> string \<Rightarrow> string" where
  "strip_chars cs s = strip (\<lambda>c. c \<in> set cs) s"

definition lstrip_chars :: "string \<Rightarrow> string \<Rightarrow> string" where
  "lstrip_chars cs s = lstrip (\<lambda>c. c \<in> set cs) s"

text \<open>\<open>s.startswith(p)\<close>.\<close>

definition startswith :: "string \<Rightarrow> string \<Rightarrow> bool" where
  "startswith s p = prefix p s"

text \<open>\<open>s.split(sep)\<close> for a separator of one character: never empty.\<close>

fun split_on :: "char \<Rightarrow> string \<Rightarrow> string list" where
  "split_on sep [] = [[]]"
| "split_on sep (c # cs) =
     (if c = sep then [] # split_on sep cs
      else (case split_on sep cs of
              [] \<Rightarrow> [[c]]
            | p # ps \<Rightarrow> (c # p) # ps))"

text \<open>\<open>str(n)\<close> for an integer, as the f-string \<open>{n}\<close> formats it.\<close>

definition digit_char :: "nat \<Rightarrow> char" where
  "digit_char d = char_of (48 + d)"

fun str_nat :: "nat \<Rightarrow> string" where
  "str_nat n = (if n < 10 then [digit_char n]
                else str_nat (n div 10) @ [digit_char (n mod 10)])"

declare str_nat.simps [simp del]

definition str_int :: "int \<Rightarrow> string" where
  "str_int i = (if i < 0 then CHR ''-'' # str_nat (nat (- i)) else str_nat (nat i))"

text \<open>
  \<open>int(s)\<close> in base 10: whitespace around the number is skipped (the ASCII blanks, and
  the non-ASCII whitespace, which the interpreter first turns into blanks; the
  separators 0x1C to 0x1F are not skipped), one sign is allowed, digits may be grouped
  by single underscores. \<open>None\<close> stands for the \<open>ValueError\<close>. The interpreter's
  limit on the number of digits of a converted string is not modelled.
\<close>

definition int_space :: "char \<Rightarrow> bool" where
  "int_space c = (c \<in> set [CHR 0x09, CHR 0x0A, CHR 0x0B, CHR 0x0C, CHR 0x0D,
                            CHR 0x20, CHR 0x85, CHR 0xA0])"

definition is_digit :: "char \<Rightarrow> bool" where
  "is_digit c = (c \<in> set ''0123456789'')"

definition digit_val :: "char \<Rightarrow> nat" where
  "digit_val c = of_char c - 48"

fun parse_digits :: "nat \<Rightarrow> bool \<Rightarrow> string \<Rightarrow> nat option" where
  "parse_digits acc us [] = (if us then None else Some acc)"
| "parse_digits acc us (c # cs) =
     (if is_digit c then parse_digits (10 * acc + digit_val c) False cs
      else if c = CHR ''_'' \<and> \<not> us then parse_digits acc True cs
      else None)"

definition py_int :: "string \<Rightarrow> int option" where
  "py_int s =
     (let t = strip int_space s;
          neg = (t \<noteq> [] \<and> hd t = CHR ''-'');
          body = (if t \<noteq> [] \<and> (hd t = CHR ''+'' \<or> hd t = CHR ''-'') then tl t else t)
      in if body \<noteq> [] \<and> is_digit (hd body)
         then map_option (\<lambda>n. if neg then - int n else int n) (parse_digits 0 False body)
         else None)"

section \<open>Regular expressions: the fragment PUBLISH.py uses, with backtracking\<close>

text \<open>
  \<open>re.match\<close> tries the alternatives of each pattern element in the order of the
  backtracking matcher and returns the first complete match: a greedy star tries the
  longest repetition first, a lazy plus the shortest. \<open>splits\<close> lists the ways an
  element can consume a prefix of the input, in that order; \<open>re_match\<close> searches them
  depth first and returns the captured groups. The anchor \<open>^\<close> at the head of a pattern
  given to \<open>re.match\<close> always holds and is left out.
\<close>

datatype rx =
    Lit string
  | Star "char \<Rightarrow> bool"
  | PlusLazy "char \<Rightarrow> bool"
  | Eos
  | Grp rx

primrec is_grp :: "rx \<Rightarrow> bool" where
  "is_grp (Lit l) = False"
| "is_grp (Star P) = False"
| "is_grp (PlusLazy P) = False"
| "is_grp Eos = False"
| "is_grp (Grp r) = True"

primrec splits :: "rx \<Rightarrow> string \<Rightarrow> (string \<times> string) list" where
  "splits (Lit l) s = (if prefix l s then [(l, drop (length l) s)] else [])"
| "splits (Star P) s =
     map (\<lambda>k. (take k s, drop k s)) (rev [0 ..< Suc (length (takeWhile P s))])"
| "splits (PlusLazy P) s =
     map (\<lambda>k. (take k s, drop k s)) [1 ..< Suc (length (takeWhile P s))]"
| "splits Eos s = (if s = [] \<or> s = [LF] then [([], s)] else [])"
| "splits (Grp r) s = splits r s"

primrec first_some :: "('a \<Rightarrow> 'b option) \<Rightarrow> 'a list \<Rightarrow> 'b option" where
  "first_some f [] = None"
| "first_some f (x # xs) = (case f x of Some y \<Rightarrow> Some y | None \<Rightarrow> first_some f xs)"

primrec re_match :: "rx list \<Rightarrow> string \<Rightarrow> string list option" where
  "re_match [] s = Some []"
| "re_match (r # rs) s =
     first_some (\<lambda>(c, rest). map_option (\<lambda>gs. if is_grp r then c # gs else gs)
                                          (re_match rs rest))
                (splits r s)"

text \<open>The class \<open>.\<close> (without DOTALL): any character but the line feed.\<close>

definition dot :: "char \<Rightarrow> bool" where
  "dot c = (c \<noteq> LF)"

text \<open>\<^verbatim>\<open>r"^\s*version:\s*(.+?)\s*$"\<close>, \<^verbatim>\<open>r"^\s*version:\s*"\<close> and \<^verbatim>\<open>r"^(\s*)"\<close>.\<close>

definition version_value_rx :: "rx list" where
  "version_value_rx =
     [Star isspace, Lit ''version:'', Star isspace, Grp (PlusLazy dot), Star isspace, Eos]"

definition version_key_rx :: "rx list" where
  "version_key_rx = [Star isspace, Lit ''version:'', Star isspace]"

definition indent_rx :: "rx list" where
  "indent_rx = [Grp (Star isspace)]"

section \<open>Files, the outside world and exceptions\<close>

text \<open>
  A text file opened for reading with the default \<open>newline=None\<close> is read with
  universal newlines: \<open>\r\n\<close> and \<open>\r\<close> arrive as \<open>\n\<close>. Iterating over the file, and
  \<open>readlines\<close>, yield the lines with their terminator; a last line without terminator
  is yielded as it is.
\<close>

fun universal_newlines :: "string \<Rightarrow> string" where
  "universal_newlines [] = []"
| "universal_newlines [c] = (if c = CR then [LF] else [c])"
| "universal_newlines (c # d # cs) =
     (if c = CR \<and> d = LF then LF # universal_newlines cs
      else if c = CR then LF # universal_newlines (d # cs)
      else c # universal_newlines (d # cs))"

fun split_lines :: "string \<Rightarrow> string \<Rightarrow> string list" where
  "split_lines acc [] = (if acc = [] then [] else [acc])"
| "split_lines acc (c # cs) =
     (if c = LF then (acc @ [c]) # split_lines [] cs else split_lines (acc @ [c]) cs)"

definition readlines :: "string \<Rightarrow> string list" where
  "readlines text = split_lines [] (universal_newlines text)"

text \<open>
  What the script raises or lets through. \<open>KeyboardInterrupt\<close> stands for the
  exceptions that are not subclasses of \<open>Exception\<close>; \<open>OtherException\<close> for any other
  subclass of \<open>Exception\<close> that the request, the decoding or the JSON parser raises
  (timeout, \<open>JSONDecodeError\<close>, \<open>UnicodeDecodeError\<close>).
\<close>

datatype exn =
    HTTPError nat
  | URLError
  | OtherException
  | ValueError
  | AttributeError
  | TypeError
  | FileNotFoundError
  | CalledProcessError
  | KeyboardInterrupt

definition is_Exception :: "exn \<Rightarrow> bool" where
  "is_Exception e = (e \<noteq> KeyboardInterrupt)"

definition is_HTTPError :: "exn \<Rightarrow> bool" where
  "is_HTTPError e = (case e of HTTPError code \<Rightarrow> True | _ \<Rightarrow> False)"

text \<open>
  The value \<open>json.loads\<close> returns. Numbers are integers here: the script observes of a
  number only whether it is zero.
\<close>

datatype json =
    JNull
  | JBool bool
  | JNum int
  | JStr string
  | JArr "json list"
  | JObj "(string \<times> json) list"

text \<open>Python's truth value of such a value, as \<open>or\<close>, \<open>not\<close> and \<open>if\<close> take it.\<close>

fun truthy :: "json \<Rightarrow> bool" where
  "truthy JNull = False"
| "truthy (JBool b) = b"
| "truthy (JNum n) = (n \<noteq> 0)"
| "truthy (JStr s) = (s \<noteq> [])"
| "truthy (JArr xs) = (xs \<noteq> [])"
| "truthy (JObj kvs) = (kvs \<noteq> [])"

definition py_or :: "json \<Rightarrow> json \<Rightarrow> json" where
  "py_or a b = (if truthy a then a else b)"

datatype event =
    HttpGet string
  | Run "string list"

record world =
  config_file :: "string option"
  changelog_file :: "string option"
  trace :: "event list"

record date =
  year :: nat
  month :: nat
  day :: nat

text \<open>
  What the run reads from outside: the clock, the outcome of the one HTTP request
  (an exception, or the parsed payload) and the exit status of each command, which may
  depend on the commands run before it.
\<close>

record env =
  now :: date
  http_response :: "exn + json"
  exit_status :: "event list \<Rightarrow> string list \<Rightarrow> nat"

record args =
  version :: "string option"
  notes_arg :: string
  latest_only :: bool
  no_push :: bool
  dry_run :: bool

text \<open>Sequencing of steps that may raise: the world is kept as the raising step left it.\<close>

definition bind ::
  "(exn + 'a) \<times> world \<Rightarrow> ('a \<Rightarrow> world \<Rightarrow> (exn + 'b) \<times> world) \<Rightarrow> (exn + 'b) \<times> world" where
  "bind m f = (case m of (Inl e, w) \<Rightarrow> (Inl e, w) | (Inr x, w) \<Rightarrow> f x w)"

definition CONFIG_PATH :: string where
  "CONFIG_PATH = ''config.yaml''"

definition CHANGELOG_PATH :: string where
  "CHANGELOG_PATH = ''CHANGELOG.md''"

definition OWNER :: string where
  "OWNER = ''Nanako718''"

definition REPO :: string where
  "REPO = ''ha-fusion''"

section \<open>The functions of PUBLISH.py\<close>

text \<open>
  Output to the terminal (\<open>print\<close>) is not part of the model. Every other effect is: the
  two files, the HTTP request and the commands are recorded in the \<open>world\<close>.
\<close>

subsection \<open>\<open>sh\<close> and \<open>http_json\<close>\<close>

definition sh :: "env \<Rightarrow> string list \<Rightarrow> bool \<Rightarrow> world \<Rightarrow> (exn + unit) \<times> world" where
  "sh e cmd check w =
     (let status = exit_status e (trace w) cmd;
          w' = w\<lparr>trace := trace w @ [Run cmd]\<rparr>
      in if check \<and> status \<noteq> 0 then (Inl CalledProcessError, w') else (Inr (), w'))"

definition http_json :: "env \<Rightarrow> string \<Rightarrow> world \<Rightarrow> (exn + json) \<times> world" where
  "http_json e url w = (http_response e, w\<lparr>trace := trace w @ [HttpGet url]\<rparr>)"

subsection \<open>\<open>fetch_latest_release\<close>\<close>

text \<open>\<open>data.get(key)\<close>: a payload that is not an object has no \<open>get\<close>.\<close>

definition dict_get :: "json \<Rightarrow> string \<Rightarrow> exn + json" where
  "dict_get data key =
     (case data of
        JObj kvs \<Rightarrow> (case map_of kvs key of None \<Rightarrow> Inr JNull | Some v \<Rightarrow> Inr v)
      | _ \<Rightarrow> Inl AttributeError)"

text \<open>The statements of the \<open>try\<close> block after the request, on its payload.\<close>

definition release_of_payload :: "json \<Rightarrow> exn + (string \<times> json)" where
  "release_of_payload data =
     (case dict_get data ''tag_name'' of
        Inl x \<Rightarrow> Inl x
      | Inr t \<Rightarrow>
          (let tag = py_or t (JStr [])
           in case dict_get data ''body'' of
                Inl x \<Rightarrow> Inl x
              | Inr b \<Rightarrow>
                  (let body = py_or b (JStr [])
                   in if \<not> truthy tag then Inl ValueError
                      else (case tag of
                              JStr s \<Rightarrow>
                                Inr (if \<not> startswith s ''v'' then ''v'' @ s else s, body)
                            | _ \<Rightarrow> Inl AttributeError))))"

text \<open>The f-string that gives the address of the request.\<close>

definition releases_latest_url :: "string \<Rightarrow> string \<Rightarrow> string" where
  "releases_latest_url owner repo =
     ''https://api.github.com/repos/'' @ owner @ ''/'' @ repo @ ''/releases/latest''"

text \<open>
  The result \<open>None\<close> is the pair \<open>(None, None)\<close>. Both handlers return it; an exception
  that is not an \<open>Exception\<close> passes through.
\<close>

definition fetch_latest_release ::
  "env \<Rightarrow> string \<Rightarrow> string \<Rightarrow> world \<Rightarrow> (exn + (string \<times> json) option) \<times> world" where
  "fetch_latest_release e owner repo w =
     (let url = releases_latest_url owner repo;
          (resp, w') = http_json e url w;
          attempt = (case resp of Inl x \<Rightarrow> Inl x | Inr data \<Rightarrow> release_of_payload data)
      in case attempt of
           Inr r \<Rightarrow> (Inr (Some r), w')
         | Inl x \<Rightarrow>
             if is_HTTPError x then (Inr None, w')
             else if is_Exception x then (Inr None, w')
             else (Inl x, w'))"

subsection \<open>\<open>strip_v\<close>\<close>

definition strip_v :: "string \<Rightarrow> string" where
  "strip_v tag = py_strip (lstrip_chars ''v'' tag)"

subsection \<open>\<open>detect_config_version\<close>\<close>

text \<open>The loop over the lines: the first line that matches decides.\<close>

fun detect_lines :: "string list \<Rightarrow> string" where
  "detect_lines [] = []"
| "detect_lines (line # rest) =
     (case re_match version_value_rx line of
        Some gs \<Rightarrow> strip_chars [SQ] (strip_chars [DQ] (py_strip (gs ! 0)))
      | None \<Rightarrow> detect_lines rest)"

definition detect_config_version :: "world \<Rightarrow> string" where
  "detect_config_version w =
     (case config_file w of
        None \<Rightarrow> []
      | Some text \<Rightarrow> detect_lines (readlines text))"

subsection \<open>\<open>write_config_version\<close>\<close>

text \<open>One turn of the loop, on the pair \<open>(new_lines, replaced)\<close>.\<close>

definition rewrite_step :: "string \<Rightarrow> string list \<times> bool \<Rightarrow> string \<Rightarrow> string list \<times> bool" where
  "rewrite_step version_no_v st line =
     (case st of (new_lines, replaced) \<Rightarrow>
        if re_match version_key_rx line \<noteq> None \<and> \<not> replaced
        then (let indent = the (re_match indent_rx line) ! 0
              in (new_lines @ [indent @ ''version: '' @ version_no_v @ [LF]], True))
        else (new_lines @ [line], replaced))"

definition rewrite_lines :: "string \<Rightarrow> string list \<Rightarrow> string list" where
  "rewrite_lines version_no_v lines =
     (case foldl (rewrite_step version_no_v) ([], False) lines of
        (new_lines, replaced) \<Rightarrow>
          if \<not> replaced then new_lines @ [''version: '' @ version_no_v @ [LF]]
          else new_lines)"

text \<open>
  \<open>writelines\<close> writes the strings one after the other. On output a line feed is
  written as \<open>os.linesep\<close>; the model is that of a POSIX system, where it stays.
\<close>

definition write_config_version :: "string \<Rightarrow> bool \<Rightarrow> world \<Rightarrow> (exn + unit) \<times> world" where
  "write_config_version version_no_v dry w =
     (case config_file w of
        None \<Rightarrow> (Inl FileNotFoundError, w)
      | Some text \<Rightarrow>
          (let new_lines = rewrite_lines version_no_v (readlines text)
           in if dry then (Inr (), w)
              else (Inr (), w\<lparr>config_file := Some (concat new_lines)\<rparr>)))"

subsection \<open>\<open>write_changelog\<close>\<close>

text \<open>
  The text may be any value of the payload. In a dry run \<open>text.splitlines()\<close> needs a
  string; otherwise the file is opened, hence emptied, before \<open>f.write\<close> refuses what
  is not a string.
\<close>

definition write_changelog :: "json \<Rightarrow> bool \<Rightarrow> world \<Rightarrow> (exn + unit) \<times> world" where
  "write_changelog text0 dry w =
     (let text = py_or text0 (JStr (''# Changelog'' @ [LF, LF] @ ''Manual release.''))
      in if dry then (case text of JStr s \<Rightarrow> (Inr (), w) | _ \<Rightarrow> (Inl AttributeError, w))
         else (case text of
                 JStr s \<Rightarrow> (Inr (), w\<lparr>changelog_file := Some s\<rparr>)
               | _ \<Rightarrow> (Inl TypeError, w\<lparr>changelog_file := Some []\<rparr>)))"

subsection \<open>The version-control driver\<close>

definition git_add_commit ::
  "env \<Rightarrow> string list \<Rightarrow> string \<Rightarrow> bool \<Rightarrow> world \<Rightarrow> (exn + unit) \<times> world" where
  "git_add_commit e files message dry w =
     (if dry then (Inr (), w)
      else bind (sh e ([''git'', ''add''] @ files) True w)
             (\<lambda>_. sh e [''git'', ''commit'', ''-m'', message] False))"

definition git_force_tag_and_push ::
  "env \<Rightarrow> string \<Rightarrow> bool \<Rightarrow> bool \<Rightarrow> world \<Rightarrow> (exn + unit) \<times> world" where
  "git_force_tag_and_push e tag_with_v push dry w =
     (if dry then (Inr (), w)
      else bind (sh e [''git'', ''tag'', ''-d'', tag_with_v] False w)
       (\<lambda>_ w. bind (sh e [''git'', ''push'', ''origin'', '':refs/tags/'' @ tag_with_v] False w)
       (\<lambda>_ w. bind (sh e [''git'', ''tag'', tag_with_v] True w)
       (\<lambda>_ w. if push
               then bind (sh e [''git'', ''push''] True w)
                      (\<lambda>_. sh e [''git'', ''push'', ''origin'', tag_with_v] True)
               else (Inr (), w)))))"

definition git_push :: "env \<Rightarrow> bool \<Rightarrow> world \<Rightarrow> (exn + unit) \<times> world" where
  "git_push e dry w = (if dry then (Inr (), w) else sh e [''git'', ''push''] True w)"

subsection \<open>\<open>auto_version\<close>\<close>

definition zero_pad :: "nat \<Rightarrow> string \<Rightarrow> string" where
  "zero_pad k s = replicate (k - length s) CHR ''0'' @ s"

text \<open>\<^verbatim>\<open>datetime.now().strftime("%Y.%m.%d")\<close>.\<close>

definition strftime_Ymd :: "date \<Rightarrow> string" where
  "strftime_Ymd d =
     zero_pad 4 (str_nat (year d)) @ ''.'' @ zero_pad 2 (str_nat (month d)) @ ''.''
       @ zero_pad 2 (str_nat (day d))"

definition auto_version :: "env \<Rightarrow> world \<Rightarrow> string" where
  "auto_version e w =
     (let today = strftime_Ymd (now e);
          cur = detect_config_version w;
          n = (if startswith cur today
               then (case py_int (last (split_on CHR ''.'' cur)) of
                       Some k \<Rightarrow> k + 1
                     | None \<Rightarrow> 2)
               else 1)
      in today @ ''.'' @ str_int n)"

subsection \<open>\<open>main\<close>\<close>

text \<open>
  Step 1 of \<open>main\<close>: the source of the version. An option that was not given is \<open>None\<close>,
  and \<open>if args.version\<close> holds for a string that is given and not empty. The result is
  \<open>(version_no_v, tag_with_v, notes)\<close>.
\<close>

definition resolve_version ::
  "args \<Rightarrow> env \<Rightarrow> world \<Rightarrow> (exn + (string \<times> string \<times> json)) \<times> world" where
  "resolve_version a e w =
     (if version a \<noteq> None \<and> version a \<noteq> Some []
      then (let version_no_v =
                  (if the (version a) \<noteq> ''auto'' then the (version a) else auto_version e w);
                tag_with_v = ''v'' @ version_no_v;
                notes = py_or (JStr (notes_arg a))
                          (JStr (''# '' @ tag_with_v @ [LF, LF] @ ''Manual release.''))
            in (Inr (version_no_v, tag_with_v, notes), w))
      else bind (fetch_latest_release e OWNER REPO w)
             (\<lambda>r w. case r of
                Some (tag_with_v, body) \<Rightarrow>
                  (let version_no_v = strip_v tag_with_v;
                       notes = py_or (JStr (notes_arg a))
                                 (py_or body (JStr (''# '' @ tag_with_v @ [LF])))
                   in (Inr (version_no_v, tag_with_v, notes), w))
              | None \<Rightarrow>
                  (let version_no_v = auto_version e w;
                       tag_with_v = ''v'' @ version_no_v;
                       notes = py_or (JStr (notes_arg a))
                                 (JStr (''# '' @ tag_with_v @ [LF, LF]
                                        @ ''Auto fallback (no releases in repo).''))
                   in (Inr (version_no_v, tag_with_v, notes), w))))"

text \<open>Steps 2 to 4: write the files, commit, push.\<close>

definition publish ::
  "args \<Rightarrow> env \<Rightarrow> string \<times> string \<times> json \<Rightarrow> world \<Rightarrow> (exn + unit) \<times> world" where
  "publish a e plan w =
     (case plan of (version_no_v, tag_with_v, notes) \<Rightarrow>
        bind (write_config_version version_no_v (dry_run a) w)
         (\<lambda>_ w. bind (write_changelog notes (dry_run a) w)
         (\<lambda>_ w. bind (git_add_commit e [CONFIG_PATH, CHANGELOG_PATH]
                       (''release: '' @ version_no_v) (dry_run a) w)
         (\<lambda>_ w. if no_push a then (Inr (), w)
                 else if latest_only a then git_push e (dry_run a) w
                 else git_force_tag_and_push e tag_with_v True (dry_run a) w))))"

definition main :: "args \<Rightarrow> env \<Rightarrow> world \<Rightarrow> (exn + unit) \<times> world" where
  "main a e w = bind (resolve_version a e w) (publish a e)"

section \<open>Notions used in the statements\<close>

text \<open>
  A line as \<open>readlines\<close> yields it: not empty, without carriage return, with a line
  feed at most at its end. In the lines of a text every line but the last ends with a
  line feed.
\<close>

definition is_line :: "string \<Rightarrow> bool" where
  "is_line l = (l \<noteq> [] \<and> CR \<notin> set l \<and> LF \<notin> set (butlast l))"

definition text_lines :: "string list \<Rightarrow> bool" where
  "text_lines ls = ((\<forall>l\<in>set ls. is_line l) \<and> (\<forall>l\<in>set (butlast ls). last l = LF))"

text \<open>
  The characters \<open>detect_config_version\<close> removes from both ends of a value: whitespace
  and the two quote characters.
\<close>

definition stripped_on_read :: "char \<Rightarrow> bool" where
  "stripped_on_read c = (isspace c \<or> c = DQ \<or> c = SQ)"

text \<open>The index of the first line that the pattern of \<open>write_config_version\<close> matches.\<close>

definition first_version_line :: "string list \<Rightarrow> nat" where
  "first_version_line ls = length (takeWhile (\<lambda>l. re_match version_key_rx l = None) ls)"

text \<open>
  The outcomes of the request after which \<open>fetch_latest_release\<close> has no release:
  an exception that is an \<open>Exception\<close> (HTTP error, network error, undecodable or
  unparsable payload), a payload that is not an object, and a \<open>tag_name\<close> that is
  missing or is not a string with at least one character.
\<close>

definition request_failed :: "exn + json \<Rightarrow> bool" where
  "request_failed r =
     (case r of
        Inl x \<Rightarrow> is_Exception x
      | Inr data \<Rightarrow>
          (case data of
             JObj kvs \<Rightarrow>
               (case map_of kvs ''tag_name'' of
                  None \<Rightarrow> True
                | Some t \<Rightarrow> (case t of JStr s \<Rightarrow> s = [] | _ \<Rightarrow> True))
           | _ \<Rightarrow> True))"

text \<open>\<open>if args.version\<close>: the option was given, with a value that is not empty.\<close>

definition version_given :: "args \<Rightarrow> bool" where
  "version_given a = (version a \<noteq> None \<and> version a \<noteq> Some [])"

definition is_HttpGet :: "event \<Rightarrow> bool" where
  "is_HttpGet ev = (case ev of HttpGet u \<Rightarrow> True | Run c \<Rightarrow> False)"

text \<open>
  The second world continues the trace of the first by commands only, each with the
  property \<open>P\<close>. The property of a command used below: if it creates a tag, the tag is
  \<open>tag\<close>.
\<close>

definition adds_cmds :: "(string list \<Rightarrow> bool) \<Rightarrow> world \<Rightarrow> world \<Rightarrow> bool" where
  "adds_cmds P w w' = (\<exists>cmds. trace w' = trace w @ map Run cmds \<and> (\<forall>c\<in>set cmds. P c))"

definition tags_only :: "string \<Rightarrow> string list \<Rightarrow> bool" where
  "tags_only tag cmd = (\<forall>t. cmd = [''git'', ''tag'', t] \<longrightarrow> t = tag)"

section \<open>Facts about the matcher\<close>

lemma first_some_None: "(first_some f xs = None) = (\<forall>x\<in>set xs. f x = None)"
  by (induction xs) (auto split: option.splits)

lemma first_some_append:
  "first_some f (xs @ ys) = (case first_some f xs of Some y \<Rightarrow> Some y | None \<Rightarrow> first_some f ys)"
  by (induction xs) (auto split: option.splits)

lemma first_some_map: "first_some f (map g xs) = first_some (\<lambda>x. f (g x)) xs"
  by (induction xs) (auto split: option.splits)

lemma take_length_takeWhile: "take (length (takeWhile P s)) s = takeWhile P s"
  by (metis takeWhile_eq_take)

lemma drop_length_takeWhile: "drop (length (takeWhile P s)) s = dropWhile P s"
  by (metis dropWhile_eq_drop)

lemma re_match_Star:
  "re_match (Star P # rs) s =
     first_some (\<lambda>k. re_match rs (drop k s)) (rev [0 ..< Suc (length (takeWhile P s))])"
  by (simp add: first_some_map option.map_ident del: upt_Suc rev.simps)

lemma re_match_Lit:
  "re_match (Lit l # rs) s = (if prefix l s then re_match rs (drop (length l) s) else None)"
  by (simp add: option.map_ident split: option.splits)

lemma re_match_Grp_PlusLazy:
  "re_match (Grp (PlusLazy P) # rs) s =
     first_some (\<lambda>k. map_option ((#) (take k s)) (re_match rs (drop k s)))
                [1 ..< Suc (length (takeWhile P s))]"
  by (simp add: first_some_map del: upt_Suc)

lemma re_match_Eos: "re_match [Eos] s = (if s = [] \<or> s = [LF] then Some [] else None)"
  by simp

lemma re_match_indent: "re_match indent_rx line = Some [takeWhile isspace line]"
  by (simp add: indent_rx_def take_length_takeWhile)

declare re_match.simps(2) [simp del]

lemma star_lit_early:
  assumes "l \<noteq> []" "\<not> P (hd l)" "k < length (takeWhile P s)"
  shows "\<not> prefix l (drop k s)"
proof
  assume p: "prefix l (drop k s)"
  from assms(3) have "k < length s" using length_takeWhile_le[of P s] by simp
  then have d: "drop k s = s ! k # drop (Suc k) s" by (simp add: Cons_nth_drop_Suc)
  with p assms(1) have "hd l = s ! k" by (cases l) (auto)
  moreover have "P (s ! k)" using assms(3)
    by (metis nth_mem set_takeWhileD takeWhile_nth)
  ultimately show False using assms(2) by simp
qed

lemma re_match_star_lit:
  assumes "l \<noteq> []" "\<not> P (hd l)"
  shows "re_match (Star P # Lit l # rs) s =
         (if prefix l (dropWhile P s) then re_match rs (drop (length l) (dropWhile P s)) else None)"
proof -
  let ?n = "length (takeWhile P s)"
  let ?f = "\<lambda>k. re_match (Lit l # rs) (drop k s)"
  have early: "\<forall>k\<in>set (rev [0..<?n]). ?f k = None"
    using star_lit_early[of l P _ s] assms by (auto simp: re_match_Lit)
  have "re_match (Star P # Lit l # rs) s = first_some ?f (rev [0..<Suc ?n])"
    by (rule re_match_Star)
  also have "\<dots> = (case ?f ?n of Some z \<Rightarrow> Some z | None \<Rightarrow> first_some ?f (rev [0..<?n]))"
    by simp
  also have "\<dots> = ?f ?n"
    using early by (simp only: first_some_None[THEN iffD2]) (simp split: option.splits)
  also have "\<dots> = (if prefix l (dropWhile P s) then re_match rs (drop (length l) (dropWhile P s)) else None)"
    by (simp only: re_match_Lit drop_length_takeWhile)
  finally show ?thesis .
qed

lemma re_match_version_key:
  "(re_match version_key_rx line \<noteq> None) = prefix ''version:'' (dropWhile isspace line)"
  unfolding version_key_rx_def
  by (subst re_match_star_lit) (simp_all add: isspace_def re_match_Star)


lemma re_match_version_key_None_value:
  "re_match version_key_rx line = None \<Longrightarrow> re_match version_value_rx line = None"
proof -
  assume a: "re_match version_key_rx line = None"
  have "\<not> prefix ''version:'' (dropWhile isspace line)"
    using a re_match_version_key[of line] by simp
  then show ?thesis
    unfolding version_value_rx_def
    by (subst re_match_star_lit) (simp_all add: isspace_def)
qed

lemma ws_tail_match:
  assumes "\<forall>c\<in>set s. isspace c"
  shows "re_match [Star isspace, Eos] s = Some []"
proof -
  have n: "length (takeWhile isspace s) = length s"
    using assms by (simp add: takeWhile_eq_all_conv[THEN iffD2])
  have "re_match [Star isspace, Eos] s
        = first_some (\<lambda>k. re_match [Eos] (drop k s)) (rev [0 ..< Suc (length s)])"
    by (simp only: re_match_Star n)
  also have "\<dots> = Some []"
    by (simp add: re_match_Eos)
  finally show ?thesis .
qed

lemma takeWhile_short:
  assumes "\<not> (\<forall>c\<in>set s. P c)"
  shows "length (takeWhile P s) < length s"
proof -
  have "takeWhile P s \<noteq> s" using assms by (simp add: takeWhile_eq_all_conv)
  moreover have "takeWhile P s = take (length (takeWhile P s)) s" by (rule takeWhile_eq_take)
  ultimately have "length (takeWhile P s) \<noteq> length s" by (metis take_all order_refl)
  then show ?thesis using length_takeWhile_le[of P s] by simp
qed

lemma ws_tail_no_match:
  assumes "\<not> (\<forall>c\<in>set s. isspace c)"
  shows "re_match [Star isspace, Eos] s = None"
proof -
  let ?n = "length (takeWhile isspace s)"
  have lf: "isspace LF" by (simp add: isspace_def LF_def)
  have n: "?n < length s" using assms by (rule takeWhile_short)
  have bad: "\<not> isspace (s ! ?n)" using n by (rule nth_length_takeWhile)
  have none: "re_match [Eos] (drop k s) = None" if "k \<le> ?n" for k
  proof -
    have kn: "k < length s" using that n by simp
    have "drop k s ! (?n - k) = s ! ?n" using that n by simp
    moreover have "?n - k < length (drop k s)" using that n by simp
    ultimately have mem: "s ! ?n \<in> set (drop k s)" by (metis nth_mem)
    have "drop k s \<noteq> []" using kn by simp
    moreover have "drop k s \<noteq> [LF]" using mem bad lf by auto
    ultimately show ?thesis by (simp add: re_match_Eos)
  qed
  have "\<forall>k\<in>set (rev [0 ..< Suc ?n]). re_match [Eos] (drop k s) = None"
    using none by auto
  then show ?thesis
    by (simp only: re_match_Star first_some_None)
qed

lemma value_core_match:
  assumes "core \<noteq> []" "\<not> isspace (last core)" "LF \<notin> set core" "\<forall>c\<in>set ws'. isspace c"
  shows "re_match [Grp (PlusLazy dot), Star isspace, Eos] (core @ ws') = Some [core]"
proof -
  let ?s = "core @ ws'"
  let ?m = "length (takeWhile dot ?s)"
  let ?f = "\<lambda>k. map_option ((#) (take k ?s)) (re_match [Star isspace, Eos] (drop k ?s))"
  have "\<forall>c\<in>set core. dot c" using assms(3) by (auto simp: dot_def)
  then have "takeWhile dot ?s = core @ takeWhile dot ws'" by (simp add: takeWhile_append2)
  then have m: "length core \<le> ?m" by simp
  have pos: "1 \<le> length core" using assms(1) by (cases core) auto
  have split: "[1 ..< Suc ?m] = [1 ..< length core] @ length core # [Suc (length core) ..< Suc ?m]"
  proof -
    have "[1 ..< Suc ?m] = [1 ..< length core] @ [length core ..< Suc ?m]"
      using m pos by (metis le_Suc_ex le_SucI upt_add_eq_append)
    moreover have "[length core ..< Suc ?m] = length core # [Suc (length core) ..< Suc ?m]"
      using m by (simp add: upt_conv_Cons)
    ultimately show ?thesis by simp
  qed
  have early: "\<forall>k\<in>set [1 ..< length core]. ?f k = None"
  proof
    fix k assume "k \<in> set [1 ..< length core]"
    then have k: "k < length core" by simp
    then have "drop k core \<noteq> []" by simp
    moreover have "last (drop k core) = last core" using k by (simp add: last_drop)
    ultimately have "last core \<in> set (drop k core)" by (metis last_in_set)
    then have "\<not> (\<forall>c\<in>set (drop k ?s). isspace c)" using assms(2) k by auto
    then have "re_match [Star isspace, Eos] (drop k ?s) = None" by (rule ws_tail_no_match)
    then show "?f k = None" by simp
  qed
  have here: "?f (length core) = Some [core]"
    using assms(4) by (simp add: ws_tail_match)
  have "re_match [Grp (PlusLazy dot), Star isspace, Eos] ?s = first_some ?f [1 ..< Suc ?m]"
    by (rule re_match_Grp_PlusLazy)
  also have "\<dots> = Some [core]"
    unfolding split using early here
    by (simp only: first_some_append first_some_None[THEN iffD2]) simp
  finally show ?thesis .
qed

lemma value_tail_match:
  assumes "\<forall>c\<in>set ws. isspace c" "core \<noteq> []" "\<not> isspace (hd core)" "\<not> isspace (last core)"
    "LF \<notin> set core" "\<forall>c\<in>set ws'. isspace c"
  shows "re_match [Star isspace, Grp (PlusLazy dot), Star isspace, Eos] (ws @ core @ ws') = Some [core]"
proof -
  have tw: "takeWhile isspace (ws @ core @ ws') = ws"
    using assms(1,2,3) by (cases core) (simp_all add: takeWhile_append2)
  have "re_match [Star isspace, Grp (PlusLazy dot), Star isspace, Eos] (ws @ core @ ws')
        = first_some (\<lambda>k. re_match [Grp (PlusLazy dot), Star isspace, Eos] (drop k (ws @ core @ ws')))
            (rev [0 ..< Suc (length ws)])"
    by (simp only: re_match_Star tw)
  also have "\<dots> = Some [core]"
    by (simp add: value_core_match[OF assms(2,4,5,6)])
  finally show ?thesis .
qed

lemma re_match_star_lit_indent:
  assumes "\<forall>c\<in>set indent. P c" "l \<noteq> []" "\<not> P (hd l)"
  shows "re_match (Star P # Lit l # rs) (indent @ l @ R) = re_match rs R"
proof -
  have "dropWhile P (l @ R) = l @ R" using assms(2,3) by (cases l) simp_all
  then have dw: "dropWhile P (indent @ l @ R) = l @ R"
    using assms(1) by (simp add: dropWhile_append2)
  have "re_match (Star P # Lit l # rs) (indent @ l @ R) =
         (if prefix l (dropWhile P (indent @ l @ R))
          then re_match rs (drop (length l) (dropWhile P (indent @ l @ R))) else None)"
    using assms(2,3) by (rule re_match_star_lit)
  then show ?thesis
    by (simp only: dw) simp
qed

lemma version_line_tail:
  assumes "\<forall>c\<in>set indent. isspace c"
  shows "re_match version_value_rx (indent @ ''version:'' @ R)
         = re_match [Star isspace, Grp (PlusLazy dot), Star isspace, Eos] R"
  unfolding version_value_rx_def
  by (rule re_match_star_lit_indent) (use assms in \<open>simp_all add: isspace_def\<close>)

lemma version_line_value:
  assumes "\<forall>c\<in>set indent. isspace c" "\<forall>c\<in>set ws. isspace c" "core \<noteq> []"
    "\<not> isspace (hd core)" "\<not> isspace (last core)" "LF \<notin> set core" "\<forall>c\<in>set ws'. isspace c"
  shows "re_match version_value_rx (indent @ ''version:'' @ ws @ core @ ws') = Some [core]"
  by (simp only: version_line_tail[OF assms(1)] value_tail_match[OF assms(2-7)])

lemma empty_value_tail:
  "re_match [Star isspace, Grp (PlusLazy dot), Star isspace, Eos] ('' '' @ [LF]) = Some ['' '']"
  by code_simp

section \<open>Facts about stripping and about the lines of a file\<close>

lemma lstrip_id: "s = [] \<or> \<not> P (hd s) \<Longrightarrow> lstrip P s = s"
  by (cases s) (auto simp: lstrip_def)

lemma rstrip_id: "s = [] \<or> \<not> P (last s) \<Longrightarrow> rstrip P s = s"
proof -
  assume a: "s = [] \<or> \<not> P (last s)"
  have "dropWhile P (rev s) = rev s"
  proof (cases "s = []")
    case True then show ?thesis by simp
  next
    case False
    then have h: "hd (rev s) = last s" by (simp add: hd_rev)
    from False obtain x xs where r: "rev s = x # xs" by (cases "rev s") auto
    with h a False have "\<not> P x" by simp
    then show ?thesis by (simp add: r)
  qed
  then show ?thesis by (simp add: rstrip_def)
qed

lemma strip_id: "s = [] \<or> (\<not> P (hd s) \<and> \<not> P (last s)) \<Longrightarrow> strip P s = s"
  by (auto simp: strip_def lstrip_id rstrip_id)

lemma strip_all: "\<forall>c\<in>set s. P c \<Longrightarrow> strip P s = []"
proof -
  assume "\<forall>c\<in>set s. P c"
  then have d: "dropWhile P s = []" by (simp add: dropWhile_eq_Nil_conv)
  show ?thesis by (simp only: strip_def lstrip_def rstrip_def d rev.simps dropWhile.simps)
qed

lemma universal_newlines_id: "CR \<notin> set s \<Longrightarrow> universal_newlines s = s"
  by (induction s rule: universal_newlines.induct) auto

lemma split_lines_no_LF:
  "LF \<notin> set s \<Longrightarrow> split_lines acc s = (if acc @ s = [] then [] else [acc @ s])"
  by (induction s arbitrary: acc) auto

lemma split_lines_upto_LF:
  "LF \<notin> set s \<Longrightarrow> split_lines acc (s @ LF # rest) = (acc @ s @ [LF]) # split_lines [] rest"
  by (induction s arbitrary: acc) auto

lemma split_lines_append:
  "a = [] \<or> last a = LF \<Longrightarrow> split_lines [] (a @ b) = split_lines [] a @ split_lines [] b"
proof (induction "length a" arbitrary: a rule: less_induct)
  case less
  show ?case
  proof (cases "a = []")
    case True then show ?thesis by simp
  next
    case False
    with less.prems have l: "last a = LF" by simp
    then have "LF \<in> set a" using False by (metis last_in_set)
    then obtain p q where pq: "a = p @ LF # q" "LF \<notin> set p" by (meson split_list_first)
    have q: "q = [] \<or> last q = LF" using l pq(1) by (cases "q = []") auto
    have "length q < length a" using pq(1) by simp
    then have ih: "split_lines [] (q @ b) = split_lines [] q @ split_lines [] b"
      using less.hyps q by blast
    show ?thesis
      using pq ih by (simp add: split_lines_upto_LF)
  qed
qed


lemma universal_newlines_no_CR: "CR \<notin> set (universal_newlines s)"
  by (induction s rule: universal_newlines.induct) (auto simp: CR_def LF_def)

lemma universal_newlines_append:
  "a = [] \<or> last a = LF \<Longrightarrow>
   universal_newlines (a @ b) = universal_newlines a @ universal_newlines b"
proof (induction a rule: universal_newlines.induct)
  case 1
  then show ?case by simp
next
  case (2 c)
  then show ?case by (cases b) (auto simp: CR_def LF_def)
next
  case (3 c d cs)
  then show ?case by (cases cs) (auto simp: CR_def LF_def split: if_splits)
qed

lemma universal_newlines_last:
  "a \<noteq> [] \<Longrightarrow> last a = LF \<Longrightarrow>
   universal_newlines a \<noteq> [] \<and> last (universal_newlines a) = LF"
proof (induction a rule: universal_newlines.induct)
  case 1
  then show ?case by simp
next
  case (2 c)
  then show ?case by simp
next
  case (3 c d cs)
  then show ?case by (cases cs) (auto simp: CR_def LF_def split: if_splits)
qed

lemma readlines_append:
  assumes "a = [] \<or> last a = LF"
  shows "readlines (a @ b) = readlines a @ readlines b"
proof (cases "a = []")
  case True
  then show ?thesis by (simp add: readlines_def)
next
  case False
  with assms have l: "last a = LF" by simp
  have "last (universal_newlines a) = LF" using universal_newlines_last[OF False l] by simp
  then show ?thesis
    using assms by (simp add: readlines_def universal_newlines_append split_lines_append)
qed

lemma readlines_line: "is_line l \<Longrightarrow> readlines l = [l]"
proof -
  assume a: "is_line l"
  then have ne: "l \<noteq> []" and cr: "CR \<notin> set l" and lf: "LF \<notin> set (butlast l)"
    by (simp_all add: is_line_def)
  have l: "l = butlast l @ [last l]" using ne by simp
  show ?thesis
  proof (cases "last l = LF")
    case True
    have "split_lines [] (butlast l @ LF # []) = ([] @ butlast l @ [LF]) # split_lines [] []"
      using lf by (rule split_lines_upto_LF)
    then have "split_lines [] l = [l]" using l True by simp
    then show ?thesis by (simp add: readlines_def universal_newlines_id[OF cr])
  next
    case False
    then have "LF \<notin> set l" using lf l by (metis Un_iff empty_iff empty_set set_ConsD set_append)
    then have "split_lines [] l = [l]" using ne by (simp add: split_lines_no_LF)
    then show ?thesis by (simp add: readlines_def universal_newlines_id[OF cr])
  qed
qed

lemma text_lines_Cons:
  "text_lines (l # ls) = (is_line l \<and> (ls \<noteq> [] \<longrightarrow> last l = LF) \<and> text_lines ls)"
  by (cases ls) (auto simp: text_lines_def)

lemma text_lines_Nil: "text_lines []"
  by (simp add: text_lines_def)

lemma readlines_concat: "text_lines ls \<Longrightarrow> readlines (concat ls) = ls"
proof (induction ls)
  case Nil
  then show ?case by (simp add: readlines_def)
next
  case (Cons l ls)
  then have il: "is_line l" and tl: "text_lines ls" and la: "ls \<noteq> [] \<longrightarrow> last l = LF"
    by (simp_all add: text_lines_Cons)
  show ?case
  proof (cases "ls = []")
    case True
    then show ?thesis using il by (simp add: readlines_line)
  next
    case False
    then have "last l = LF" using la by simp
    then have "readlines (l @ concat ls) = readlines l @ readlines (concat ls)"
      by (simp add: readlines_append)
    then show ?thesis using il tl Cons.IH by (simp add: readlines_line)
  qed
qed

lemma split_lines_text:
  "LF \<notin> set acc \<Longrightarrow> CR \<notin> set acc \<Longrightarrow> CR \<notin> set s \<Longrightarrow> text_lines (split_lines acc s)"
proof (induction s arbitrary: acc)
  case Nil
  then show ?case
    by (auto simp: text_lines_def is_line_def dest: in_set_butlastD)
next
  case (Cons c cs)
  show ?case
  proof (cases "c = LF")
    case True
    have "text_lines (split_lines [] cs)" using Cons.prems by (intro Cons.IH) simp_all
    moreover have "is_line (acc @ [LF])" using Cons.prems by (simp add: is_line_def CR_def LF_def)
    ultimately show ?thesis using True by (simp add: text_lines_Cons)
  next
    case False
    have "text_lines (split_lines (acc @ [c]) cs)"
      using Cons.prems False by (intro Cons.IH) auto
    then show ?thesis using False by simp
  qed
qed

lemma readlines_text: "text_lines (readlines text)"
  unfolding readlines_def
  by (rule split_lines_text) (simp_all add: universal_newlines_no_CR)

section \<open>Facts about the loops over the lines\<close>

lemma rewrite_step_replaced:
  "rewrite_step v (acc, True) line = (acc @ [line], True)"
  by (simp add: rewrite_step_def)

lemma rewrite_step_no_match:
  "re_match version_key_rx line = None \<Longrightarrow> rewrite_step v (acc, r) line = (acc @ [line], r)"
  by (simp add: rewrite_step_def)

lemma rewrite_step_match:
  "re_match version_key_rx line \<noteq> None \<Longrightarrow>
   rewrite_step v (acc, False) line = (acc @ [(takeWhile isspace line @ ''version: '' @ v @ [LF])], True)"
  by (simp add: rewrite_step_def re_match_indent)

lemma foldl_rewrite_replaced:
  "foldl (rewrite_step v) (acc, True) ls = (acc @ ls, True)"
  by (induction ls arbitrary: acc) (simp_all add: rewrite_step_replaced)

lemma foldl_rewrite_no_match:
  "\<forall>l\<in>set ls. re_match version_key_rx l = None \<Longrightarrow>
   foldl (rewrite_step v) (acc, r) ls = (acc @ ls, r)"
  by (induction ls arbitrary: acc) (simp_all add: rewrite_step_no_match)

lemma rewrite_lines_no_match:
  "\<forall>l\<in>set ls. re_match version_key_rx l = None \<Longrightarrow>
   rewrite_lines v ls = ls @ [''version: '' @ v @ [LF]]"
  by (simp add: rewrite_lines_def foldl_rewrite_no_match)

lemma rewrite_lines_match:
  assumes "\<forall>l\<in>set pre. re_match version_key_rx l = None" "re_match version_key_rx line \<noteq> None"
  shows "rewrite_lines v (pre @ line # post) = pre @ (takeWhile isspace line @ ''version: '' @ v @ [LF]) # post"
  using assms
  by (simp add: rewrite_lines_def foldl_rewrite_no_match rewrite_step_match foldl_rewrite_replaced)

lemma detect_lines_skip:
  "\<forall>l\<in>set pre. re_match version_key_rx l = None \<Longrightarrow> detect_lines (pre @ rest) = detect_lines rest"
  by (induction pre) (simp_all add: re_match_version_key_None_value)

lemma lines_split_first:
  assumes "\<exists>l\<in>set ls. re_match version_key_rx l \<noteq> None"
  shows "\<exists>pre line post. ls = pre @ line # post \<and> (\<forall>l\<in>set pre. re_match version_key_rx l = None)
           \<and> re_match version_key_rx line \<noteq> None"
proof -
  from assms obtain pre line post where
    "ls = pre @ line # post" "re_match version_key_rx line \<noteq> None"
    "\<forall>l\<in>set pre. \<not> re_match version_key_rx l \<noteq> None"
    using split_list_first_prop[of ls "\<lambda>l. re_match version_key_rx l \<noteq> None"] by blast
  then show ?thesis by auto
qed


lemma text_lines_append_right: "text_lines (pre @ rest) \<Longrightarrow> text_lines rest"
  by (induction pre) (simp_all add: text_lines_Cons)

lemma text_lines_append_left:
  "text_lines (pre @ rest) \<Longrightarrow> rest \<noteq> [] \<Longrightarrow> \<forall>l\<in>set pre. is_line l \<and> last l = LF"
  by (induction pre) (simp_all add: text_lines_Cons)

lemma readlines_concat_prefix:
  "\<forall>l\<in>set pre. is_line l \<and> last l = LF \<Longrightarrow> readlines (concat pre @ b) = pre @ readlines b"
proof (induction pre)
  case Nil
  then show ?case by simp
next
  case (Cons l pre)
  then have "readlines (l @ (concat pre @ b)) = readlines l @ readlines (concat pre @ b)"
    by (simp add: readlines_append)
  then show ?case using Cons by (simp add: readlines_line)
qed

lemma readlines_replaced:
  assumes "text_lines (pre @ line # post)" "new \<noteq> []" "last new = LF"
  shows "readlines (concat (pre @ new # post)) = pre @ readlines new @ post"
proof -
  have pre: "\<forall>l\<in>set pre. is_line l \<and> last l = LF"
    using assms(1) by (rule text_lines_append_left) simp
  have "text_lines (line # post)" using assms(1) by (rule text_lines_append_right)
  then have post: "text_lines post" by (simp add: text_lines_Cons)
  have "readlines (concat (pre @ new # post)) = pre @ readlines (new @ concat post)"
    using pre by (simp add: readlines_concat_prefix)
  also have "readlines (new @ concat post) = readlines new @ readlines (concat post)"
    using assms(3) by (simp add: readlines_append)
  also have "readlines (concat post) = post" using post by (rule readlines_concat)
  finally show ?thesis .
qed

lemma indent_in_butlast:
  assumes "re_match version_key_rx line \<noteq> None"
  shows "set (takeWhile isspace line) \<subseteq> set (butlast line)"
proof -
  have p: "prefix ''version:'' (dropWhile isspace line)"
    using assms re_match_version_key[of line] by blast
  then obtain r where r: "dropWhile isspace line = ''version:'' @ r" by (auto simp: prefix_def)
  have "line = takeWhile isspace line @ dropWhile isspace line" by simp
  then have "line = (takeWhile isspace line @ butlast (''version:'' @ r)) @ [last (''version:'' @ r)]"
    using r by (metis append_assoc append_butlast_last_id append_is_Nil_conv list.distinct(1))
  then have "butlast line = takeWhile isspace line @ butlast (''version:'' @ r)"
    by (metis butlast_snoc)
  then show ?thesis by (metis set_append Un_upper1)
qed

lemma new_line_is_line:
  assumes "is_line line" "re_match version_key_rx line \<noteq> None" "CR \<notin> set v" "LF \<notin> set v"
  shows "is_line (takeWhile isspace line @ ''version: '' @ v @ [LF])"
proof -
  let ?ind = "takeWhile isspace line"
  have "set ?ind \<subseteq> set line" by (auto dest: set_takeWhileD)
  then have cr: "CR \<notin> set ?ind" using assms(1) by (auto simp: is_line_def)
  have lf: "LF \<notin> set ?ind" using indent_in_butlast[OF assms(2)] assms(1) by (auto simp: is_line_def)
  have "butlast (?ind @ ''version: '' @ v @ [LF]) = ?ind @ ''version: '' @ v"
    by (simp add: butlast_append)
  then show ?thesis
    using cr lf assms(3,4) by (simp add: is_line_def CR_def LF_def)
qed

section \<open>Facts about \<open>write_config_version\<close> and \<open>detect_config_version\<close>\<close>

lemma write_config_version_match:
  assumes "config_file w = Some text"
    and "readlines text = pre @ line # post"
    and "\<forall>l\<in>set pre. re_match version_key_rx l = None"
    and "re_match version_key_rx line \<noteq> None"
  shows "rewrite_lines v (readlines text)
           = pre @ (takeWhile isspace line @ ''version: '' @ v @ [LF]) # post"
    and "write_config_version v False w
           = (Inr (), w\<lparr>config_file :=
                Some (concat (pre @ (takeWhile isspace line @ ''version: '' @ v @ [LF]) # post))\<rparr>)"
    and "readlines (concat (pre @ (takeWhile isspace line @ ''version: '' @ v @ [LF]) # post))
           = pre @ readlines (takeWhile isspace line @ ''version: '' @ v @ [LF]) @ post"
    and "CR \<notin> set v \<and> LF \<notin> set v \<longrightarrow>
            readlines (takeWhile isspace line @ ''version: '' @ v @ [LF])
              = [takeWhile isspace line @ ''version: '' @ v @ [LF]]"
proof -
  let ?new = "takeWhile isspace line @ ''version: '' @ v @ [LF]"
  have tl: "text_lines (pre @ line # post)"
    using readlines_text[of "text"] assms(2) by simp
  show rw: "rewrite_lines v (readlines text) = pre @ ?new # post"
    unfolding assms(2) using assms(3,4) by (rule rewrite_lines_match)
  show "write_config_version v False w
              = (Inr (), w\<lparr>config_file := Some (concat (pre @ ?new # post))\<rparr>)"
    using assms(1) rw by (simp add: write_config_version_def)
  show "readlines (concat (pre @ ?new # post)) = pre @ readlines ?new @ post"
    using tl by (rule readlines_replaced) simp_all
  have il: "is_line line" using tl by (simp add: text_lines_def)
  show "CR \<notin> set v \<and> LF \<notin> set v \<longrightarrow> readlines ?new = [?new]"
    using new_line_is_line[OF il assms(4)] readlines_line by blast
qed

lemma first_version_line_split:
  assumes "\<forall>l\<in>set pre. re_match version_key_rx l = None" "re_match version_key_rx line \<noteq> None"
  shows "first_version_line (pre @ line # post) = length pre"
  using assms by (simp add: first_version_line_def takeWhile_append2)

lemma detect_new_line:
  assumes "\<forall>c\<in>set indent. isspace c" "LF \<notin> set v"
    and "v \<noteq> [] \<longrightarrow> \<not> stripped_on_read (hd v) \<and> \<not> stripped_on_read (last v)"
  shows "detect_lines ((indent @ ''version: '' @ v @ [LF]) # post) = v"
proof (cases "v = []")
  case True
  have "re_match version_value_rx (indent @ ''version:'' @ ('' '' @ [LF])) = Some ['' '']"
    by (simp only: version_line_tail[OF assms(1)] empty_value_tail)
  then have m: "re_match version_value_rx (indent @ ''version: '' @ v @ [LF]) = Some ['' '']"
    using True by simp
  have "py_strip '' '' = []" unfolding py_strip_def by (rule strip_all) (simp add: isspace_def)
  then show ?thesis using True m by (simp add: strip_chars_def strip_id)
next
  case False
  then have hv: "\<not> isspace (hd v)" "\<not> isspace (last v)" "hd v \<noteq> DQ" "last v \<noteq> DQ"
    "hd v \<noteq> SQ" "last v \<noteq> SQ"
    using assms(3) by (simp_all add: stripped_on_read_def)
  have "re_match version_value_rx (indent @ ''version:'' @ '' '' @ v @ [LF]) = Some [v]"
    using assms(1) _ False hv(1,2) assms(2)
    by (rule version_line_value) (simp_all add: isspace_def LF_def)
  then have m: "re_match version_value_rx (indent @ ''version: '' @ v @ [LF]) = Some [v]"
    by simp
  have "py_strip v = v" unfolding py_strip_def using hv by (intro strip_id) simp
  moreover have "strip_chars [DQ] v = v" unfolding strip_chars_def using hv by (intro strip_id) simp
  moreover have "strip_chars [SQ] v = v" unfolding strip_chars_def using hv by (intro strip_id) simp
  ultimately show ?thesis using m by simp
qed

lemma concat_split_lines: "concat (split_lines acc s) = acc @ s"
  by (induction s arbitrary: acc) simp_all

lemma concat_readlines: "CR \<notin> set text \<Longrightarrow> concat (readlines text) = text"
  by (simp add: readlines_def universal_newlines_id concat_split_lines)

section \<open>Missing configuration file\<close>

text \<open>
  C7: \<open>write_config_version\<close> fails with \<open>FileNotFoundError\<close> exactly when the
  configuration file does not exist, and then leaves the world as it was; on a file
  that exists it does not fail. \<open>detect_config_version\<close> on an absent file returns the
  empty string.
\<close>

theorem write_fails_iff_config_missing:
  "(fst (write_config_version v dry w) = Inl FileNotFoundError) = (config_file w = None)
   \<and> ((\<exists>x. fst (write_config_version v dry w) = Inl x) = (config_file w = None))
   \<and> (config_file w = None \<longrightarrow>
        write_config_version v dry w = (Inl FileNotFoundError, w)
        \<and> detect_config_version w = [])"
  by (cases "config_file w")
     (simp_all add: write_config_version_def detect_config_version_def Let_def)

theorem write_fails_iff_config_missing_witness:
  "write_config_version ''1.0'' False
     \<lparr>config_file = None, changelog_file = None, trace = []\<rparr>
   = (Inl FileNotFoundError, \<lparr>config_file = None, changelog_file = None, trace = []\<rparr>)
   \<and> detect_config_version \<lparr>config_file = None, changelog_file = None, trace = []\<rparr> = []"
  using write_fails_iff_config_missing
    [of "''1.0''" False "\<lparr>config_file = None, changelog_file = None, trace = []\<rparr>"]
  by simp

text \<open>
  C10: in a dry run \<open>write_config_version\<close> still raises \<open>FileNotFoundError\<close> when
  the configuration file is absent: the existence test comes before the \<open>dry\<close> test.
\<close>

theorem dry_run_still_raises_on_missing_config:
  "config_file w = None \<Longrightarrow> write_config_version v True w = (Inl FileNotFoundError, w)"
  by (simp add: write_config_version_def)

theorem dry_run_still_raises_on_missing_config_witness:
  "write_config_version ''1.0'' True
     \<lparr>config_file = None, changelog_file = None, trace = []\<rparr>
   = (Inl FileNotFoundError, \<lparr>config_file = None, changelog_file = None, trace = []\<rparr>)"
  using dry_run_still_raises_on_missing_config
    [of "\<lparr>config_file = None, changelog_file = None, trace = []\<rparr>" "''1.0''"]
  by simp

section \<open>Rewriting the version line\<close>

text \<open>
  C8, as stated, fails for a document with carriage returns: the file is read with
  universal newlines and written with line feeds, so no line of such a document is
  copied as it is. The document below has two version lines and CRLF line ends; after
  writing the version \<open>3\<close> the later version line and the unrelated line have lost
  their carriage return.
\<close>

theorem first_version_line_rewritten_rest_verbatim_counterexample:
  "write_config_version ''3'' False
     \<lparr>config_file = Some (''version: 1'' @ [CR, LF] @ ''version: 2'' @ [CR, LF] @ ''b: 2'' @ [CR, LF]),
      changelog_file = None, trace = []\<rparr>
   = (Inr (),
      \<lparr>config_file = Some (''version: 3'' @ [LF] @ ''version: 2'' @ [LF] @ ''b: 2'' @ [LF]),
       changelog_file = None, trace = []\<rparr>)
   \<and> ''version: 3'' @ [LF] @ ''version: 2'' @ [LF] @ ''b: 2'' @ [LF]
       \<noteq> ''version: 3'' @ [LF] @ ''version: 2'' @ [CR, LF] @ ''b: 2'' @ [CR, LF]
   \<and> \<not> sublist (''version: 2'' @ [CR, LF])
           (''version: 3'' @ [LF] @ ''version: 2'' @ [LF] @ ''b: 2'' @ [LF])
   \<and> \<not> sublist (''b: 2'' @ [CR, LF])
           (''version: 3'' @ [LF] @ ''version: 2'' @ [LF] @ ''b: 2'' @ [LF])"
  by code_simp

text \<open>
  C8, amended: let the document have no carriage return, and let its lines be
  \<open>pre @ line # post\<close>, where \<open>line\<close> is the first line the version pattern matches.
  The text of the file is these lines one after the other, and
  \<open>write_config_version\<close> writes the same text with \<open>line\<close> alone replaced, by its own
  leading whitespace followed by \<open>version: v\<close> and a line feed: every character of
  every line of \<open>pre\<close> and of \<open>post\<close> is copied, in order, whatever \<open>post\<close> contains;
  further version lines are kept. The written file reads back as these lines (with the
  new line split where \<open>v\<close> has line breaks; it is one line when \<open>v\<close> has none).
\<close>

theorem first_version_line_rewritten_rest_verbatim:
  assumes "config_file w = Some text"
    and "CR \<notin> set text"
    and "readlines text = pre @ line # post"
    and "\<forall>l\<in>set pre. re_match version_key_rx l = None"
    and "re_match version_key_rx line \<noteq> None"
  shows "text = concat pre @ line @ concat post
       \<and> rewrite_lines v (readlines text)
           = pre @ (takeWhile isspace line @ ''version: '' @ v @ [LF]) # post
       \<and> write_config_version v False w
           = (Inr (), w\<lparr>config_file :=
                Some (concat pre @ (takeWhile isspace line @ ''version: '' @ v @ [LF])
                        @ concat post)\<rparr>)
       \<and> readlines (concat pre @ (takeWhile isspace line @ ''version: '' @ v @ [LF])
                      @ concat post)
           = pre @ readlines (takeWhile isspace line @ ''version: '' @ v @ [LF]) @ post
       \<and> (CR \<notin> set v \<and> LF \<notin> set v \<longrightarrow>
            readlines (takeWhile isspace line @ ''version: '' @ v @ [LF])
              = [takeWhile isspace line @ ''version: '' @ v @ [LF]])"
proof -
  define new where "new = takeWhile isspace line @ ''version: '' @ v @ [LF]"
  note facts = write_config_version_match[OF assms(1,3,4,5), of v, folded new_def]
  have c: "concat (pre @ new # post) = concat pre @ new @ concat post" by simp
  have "concat (readlines text) = text" using assms(2) by (rule concat_readlines)
  then have 1: "text = concat pre @ line @ concat post" unfolding assms(3) by simp
  have 2: "rewrite_lines v (readlines text) = pre @ new # post" by (rule facts(1))
  have 3: "write_config_version v False w
             = (Inr (), w\<lparr>config_file := Some (concat pre @ new @ concat post)\<rparr>)"
    using facts(2) unfolding c .
  have 4: "readlines (concat pre @ new @ concat post) = pre @ readlines new @ post"
    using facts(3) unfolding c .
  have 5: "CR \<notin> set v \<and> LF \<notin> set v \<longrightarrow> readlines new = [new]" by (rule facts(4))
  show ?thesis
    using 1 2 3 4 5 unfolding new_def by blast
qed

theorem first_version_line_rewritten_rest_verbatim_witness:
  "write_config_version ''3'' False
     \<lparr>config_file = Some (''a: 1'' @ [LF] @ ''  version: 1'' @ [LF] @ ''version: 2'' @ [LF]),
      changelog_file = None, trace = []\<rparr>
   = (Inr (),
      \<lparr>config_file = Some (''a: 1'' @ [LF] @ ''  version: 3'' @ [LF] @ ''version: 2'' @ [LF]),
       changelog_file = None, trace = []\<rparr>)
   \<and> readlines (''a: 1'' @ [LF] @ ''  version: 3'' @ [LF] @ ''version: 2'' @ [LF])
     = [''a: 1'' @ [LF], ''  version: 3'' @ [LF], ''version: 2'' @ [LF]]"
proof -
  let ?w = "\<lparr>config_file = Some (''a: 1'' @ [LF] @ ''  version: 1'' @ [LF] @ ''version: 2'' @ [LF]),
             changelog_file = None, trace = []\<rparr>"
  have h1: "config_file ?w = Some (''a: 1'' @ [LF] @ ''  version: 1'' @ [LF] @ ''version: 2'' @ [LF])"
    by simp
  have h0: "CR \<notin> set (''a: 1'' @ [LF] @ ''  version: 1'' @ [LF] @ ''version: 2'' @ [LF])"
    by code_simp
  have h2: "readlines (''a: 1'' @ [LF] @ ''  version: 1'' @ [LF] @ ''version: 2'' @ [LF])
            = [''a: 1'' @ [LF]] @ (''  version: 1'' @ [LF]) # [''version: 2'' @ [LF]]"
    by code_simp
  have h3: "\<forall>l\<in>set [''a: 1'' @ [LF]]. re_match version_key_rx l = None"
    by code_simp
  have h4: "re_match version_key_rx (''  version: 1'' @ [LF]) \<noteq> None"
    by code_simp
  have c: "CR \<notin> set ''3'' \<and> LF \<notin> set ''3''"
    by code_simp
  show ?thesis
    using first_version_line_rewritten_rest_verbatim[OF h1 h0 h2 h3 h4, of "''3''"] c
    by (simp add: isspace_def)
qed

section \<open>Writing a version and reading it back\<close>

text \<open>
  C1, as stated, fails in two ways. A version given with quotes is written as it is and
  read back without them: the document \<open>version: 1\<close> has a version line, and after
  writing the version \<open>"2"\<close> (with its quotes) \<open>detect_config_version\<close> returns \<open>2\<close>.
  And a document with carriage returns is read with universal newlines and written with
  line feeds: in the document \<open>a: 1\<close>, \<open>version: 1\<close> with CRLF line ends, the line
  \<open>a: 1\<close> is no version line, and it is written without its carriage return.
\<close>

theorem write_then_detect_counterexample:
  "readlines (''version: 1'' @ [LF]) = [''version: 1'' @ [LF]]
   \<and> re_match version_key_rx (''version: 1'' @ [LF]) \<noteq> None
   \<and> write_config_version ([DQ] @ ''2'' @ [DQ]) False
        \<lparr>config_file = Some (''version: 1'' @ [LF]), changelog_file = None, trace = []\<rparr>
      = (Inr (), \<lparr>config_file = Some (''version: '' @ [DQ] @ ''2'' @ [DQ] @ [LF]),
                  changelog_file = None, trace = []\<rparr>)
   \<and> detect_config_version
        \<lparr>config_file = Some (''version: '' @ [DQ] @ ''2'' @ [DQ] @ [LF]),
         changelog_file = None, trace = []\<rparr> = ''2''
   \<and> ''2'' \<noteq> [DQ] @ ''2'' @ [DQ]
   \<and> write_config_version ''2'' False
        \<lparr>config_file = Some (''a: 1'' @ [CR, LF] @ ''version: 1'' @ [CR, LF]),
         changelog_file = None, trace = []\<rparr>
      = (Inr (), \<lparr>config_file = Some (''a: 1'' @ [LF] @ ''version: 2'' @ [LF]),
                  changelog_file = None, trace = []\<rparr>)
   \<and> re_match version_key_rx (''a: 1'' @ [CR, LF]) = None
   \<and> ''a: 1'' @ [LF] @ ''version: 2'' @ [LF] \<noteq> ''a: 1'' @ [CR, LF] @ ''version: 2'' @ [LF]
   \<and> \<not> sublist (''a: 1'' @ [CR, LF]) (''a: 1'' @ [LF] @ ''version: 2'' @ [LF])"
  by code_simp

text \<open>
  C1, amended: let the document have no carriage return and have a line that the
  version pattern matches, and let \<open>v\<close> contain no line break and neither begin nor end
  with whitespace or a quote character. Then \<open>write_config_version v\<close> succeeds and
  \<open>detect_config_version\<close> on the written file returns exactly \<open>v\<close>. The text of the
  input is its lines one after the other, and the text written is the same lines with
  only the first matching line replaced: every other line is identical, character by
  character, and at its place; the written file reads back as these lines.
\<close>

theorem write_then_detect:
  assumes "config_file w = Some text"
    and "CR \<notin> set text"
    and "\<exists>l\<in>set (readlines text). re_match version_key_rx l \<noteq> None"
    and "CR \<notin> set v" and "LF \<notin> set v"
    and "v \<noteq> [] \<longrightarrow> \<not> stripped_on_read (hd v) \<and> \<not> stripped_on_read (last v)"
  shows "text = concat (readlines text)
       \<and> fst (write_config_version v False w) = Inr ()
       \<and> detect_config_version (snd (write_config_version v False w)) = v
       \<and> config_file (snd (write_config_version v False w))
           = Some (concat ((readlines text)
                [first_version_line (readlines text) :=
                   takeWhile isspace (readlines text ! first_version_line (readlines text))
                     @ ''version: '' @ v @ [LF]]))
       \<and> map_option readlines (config_file (snd (write_config_version v False w)))
           = Some ((readlines text)
                [first_version_line (readlines text) :=
                   takeWhile isspace (readlines text ! first_version_line (readlines text))
                     @ ''version: '' @ v @ [LF]])"
proof -
  obtain pre line post where sp: "readlines text = pre @ line # post"
    and pre: "\<forall>l\<in>set pre. re_match version_key_rx l = None"
    and line: "re_match version_key_rx line \<noteq> None"
    using lines_split_first[OF assms(3)] by blast
  define new where "new = takeWhile isspace line @ ''version: '' @ v @ [LF]"
  define text' where "text' = concat (pre @ new # post)"
  note facts = write_config_version_match[OF assms(1) sp pre line, of v, folded new_def, folded text'_def]
  have wr: "write_config_version v False w = (Inr (), w\<lparr>config_file := Some text'\<rparr>)"
    by (rule facts(2))
  have "readlines new = [new]" using facts(4) assms(4,5) by simp
  then have rl: "readlines text' = pre @ new # post"
    using facts(3) by simp
  have idx: "first_version_line (readlines text) = length pre"
    unfolding sp using pre line by (rule first_version_line_split)
  have upd: "(readlines text)[length pre := new] = pre @ new # post"
    unfolding sp by simp
  have nth: "readlines text ! length pre = line" unfolding sp by simp
  have "detect_lines (pre @ new # post) = detect_lines (new # post)"
    using pre by (rule detect_lines_skip)
  also have "\<dots> = v"
    unfolding new_def using _ assms(5,6) by (rule detect_new_line) (auto dest: set_takeWhileD)
  finally have det: "detect_lines (pre @ new # post) = v" .
  have d: "detect_config_version (w\<lparr>config_file := Some text'\<rparr>) = v"
    by (simp add: detect_config_version_def rl det)
  have u: "(readlines text)
                [first_version_line (readlines text) :=
                   takeWhile isspace (readlines text ! first_version_line (readlines text))
                     @ ''version: '' @ v @ [LF]] = pre @ new # post"
    unfolding idx nth using upd by (simp only: new_def)
  have 1: "text = concat (readlines text)"
    using concat_readlines[OF assms(2)] by simp
  have 2: "fst (write_config_version v False w) = Inr ()" by (simp add: wr)
  have 3: "detect_config_version (snd (write_config_version v False w)) = v"
    using d by (simp add: wr)
  have 4: "config_file (snd (write_config_version v False w)) = Some (concat (pre @ new # post))"
    by (simp only: wr text'_def) simp
  have 5: "map_option readlines (config_file (snd (write_config_version v False w)))
           = Some (pre @ new # post)"
    using rl by (simp add: wr)
  show ?thesis
    unfolding u using 1 2 3 4 5 by blast
qed

theorem write_then_detect_witness:
  "detect_config_version (snd (write_config_version ''1.2.3'' False
     \<lparr>config_file = Some (''a: 1'' @ [LF] @ ''  version: 1'' @ [LF] @ ''version: 2'' @ [LF]),
      changelog_file = None, trace = []\<rparr>)) = ''1.2.3''"
proof -
  let ?w = "\<lparr>config_file = Some (''a: 1'' @ [LF] @ ''  version: 1'' @ [LF] @ ''version: 2'' @ [LF]),
             changelog_file = None, trace = []\<rparr>"
  have h1: "config_file ?w = Some (''a: 1'' @ [LF] @ ''  version: 1'' @ [LF] @ ''version: 2'' @ [LF])"
    by simp
  have h0: "CR \<notin> set (''a: 1'' @ [LF] @ ''  version: 1'' @ [LF] @ ''version: 2'' @ [LF])"
    by code_simp
  have h2: "\<exists>l\<in>set (readlines (''a: 1'' @ [LF] @ ''  version: 1'' @ [LF] @ ''version: 2'' @ [LF])).
              re_match version_key_rx l \<noteq> None"
    by code_simp
  have h3: "CR \<notin> set ''1.2.3''" by code_simp
  have h4: "LF \<notin> set ''1.2.3''" by code_simp
  have h5: "''1.2.3'' \<noteq> [] \<longrightarrow>
              \<not> stripped_on_read (hd ''1.2.3'') \<and> \<not> stripped_on_read (last ''1.2.3'')"
    by code_simp
  show ?thesis
    using write_then_detect[OF h1 h0 h2 h3 h4 h5] by simp
qed

section \<open>Appending the version line\<close>

text \<open>
  C6: the claim holds for the list \<open>new_lines\<close> (see \<open>rewrite_lines_no_match\<close>), but
  not for the document that is written when the last line of the file has no line
  feed: the appended text continues that line. The file \<open>name: x\<close> has one line and
  no version line; after \<open>write_config_version\<close> it still has one line, which is no
  line of the input, and no version can be read from it.
\<close>

theorem append_joins_unterminated_last_line:
  "readlines ''name: x'' = [''name: x'']
   \<and> re_match version_key_rx ''name: x'' = None
   \<and> rewrite_lines ''1.0'' [''name: x''] = [''name: x'', ''version: 1.0'' @ [LF]]
   \<and> write_config_version ''1.0'' False
        \<lparr>config_file = Some ''name: x'', changelog_file = None, trace = []\<rparr>
      = (Inr (), \<lparr>config_file = Some (''name: xversion: 1.0'' @ [LF]),
                  changelog_file = None, trace = []\<rparr>)
   \<and> readlines (''name: xversion: 1.0'' @ [LF]) = [''name: xversion: 1.0'' @ [LF]]
   \<and> detect_config_version
        \<lparr>config_file = Some (''name: xversion: 1.0'' @ [LF]),
         changelog_file = None, trace = []\<rparr> = []"
  by code_simp

section \<open>The generated version\<close>

lemma strftime_example: "strftime_Ymd \<lparr>year = 2024, month = 1, day = 1\<rparr> = ''2024.01.01''"
  by code_simp

lemma str_int_1: "str_int 1 = ''1''"
  by code_simp

lemma str_int_2: "str_int 2 = ''2''"
  by code_simp

lemma example_same_day:
  "startswith ''2024.01.01.1'' ''2024.01.01''
   \<and> py_int (last (split_on CHR ''.'' ''2024.01.01.1'')) = Some 1"
  by code_simp

lemma example_other_day: "\<not> startswith ''2023.12.31.5'' ''2024.01.01''"
  by code_simp

text \<open>
  C4: on 2024-01-01 a stored version \<open>2024.01.01.1\<close> gives \<open>2024.01.01.2\<close> and a stored
  version \<open>2023.12.31.5\<close> gives \<open>2024.01.01.1\<close>; and whenever the stored version starts
  with today's date and \<open>int\<close> rejects its last dot-separated component, the suffix is 2.
\<close>

theorem auto_version_examples_and_default:
  "(now e = \<lparr>year = 2024, month = 1, day = 1\<rparr> \<and> detect_config_version w = ''2024.01.01.1''
      \<longrightarrow> auto_version e w = ''2024.01.01.2'')
   \<and> (now e = \<lparr>year = 2024, month = 1, day = 1\<rparr> \<and> detect_config_version w = ''2023.12.31.5''
      \<longrightarrow> auto_version e w = ''2024.01.01.1'')
   \<and> (startswith (detect_config_version w) (strftime_Ymd (now e))
       \<and> py_int (last (split_on CHR ''.'' (detect_config_version w))) = None
      \<longrightarrow> auto_version e w = strftime_Ymd (now e) @ ''.2'')"
proof (intro conjI impI)
  assume a: "now e = \<lparr>year = 2024, month = 1, day = 1\<rparr> \<and> detect_config_version w = ''2024.01.01.1''"
  then have n: "now e = \<lparr>year = 2024, month = 1, day = 1\<rparr>"
    and d: "detect_config_version w = ''2024.01.01.1''" by blast+
  have "auto_version e w = ''2024.01.01'' @ ''.'' @ str_int (1 + 1)"
    unfolding auto_version_def n d Let_def strftime_example
    using example_same_day by (simp only: if_True option.case)
  then show "auto_version e w = ''2024.01.01.2''"
    by (simp add: str_int_2)
next
  assume a: "now e = \<lparr>year = 2024, month = 1, day = 1\<rparr> \<and> detect_config_version w = ''2023.12.31.5''"
  then have n: "now e = \<lparr>year = 2024, month = 1, day = 1\<rparr>"
    and d: "detect_config_version w = ''2023.12.31.5''" by blast+
  have "auto_version e w = ''2024.01.01'' @ ''.'' @ str_int 1"
    unfolding auto_version_def n d Let_def strftime_example
    using example_other_day by (simp only: if_False)
  then show "auto_version e w = ''2024.01.01.1''"
    by (simp add: str_int_1)
next
  assume "startswith (detect_config_version w) (strftime_Ymd (now e))
       \<and> py_int (last (split_on CHR ''.'' (detect_config_version w))) = None"
  then show "auto_version e w = strftime_Ymd (now e) @ ''.2''"
    by (simp add: auto_version_def str_int_2)
qed

theorem auto_version_examples_and_default_witness:
  "auto_version \<lparr>now = \<lparr>year = 2024, month = 1, day = 1\<rparr>, http_response = Inl URLError,
                  exit_status = (\<lambda>t c. 0)\<rparr>
     \<lparr>config_file = Some (''version: 2024.01.01.1'' @ [LF]), changelog_file = None, trace = []\<rparr>
     = ''2024.01.01.2''
   \<and> auto_version \<lparr>now = \<lparr>year = 2024, month = 1, day = 1\<rparr>, http_response = Inl URLError,
                  exit_status = (\<lambda>t c. 0)\<rparr>
     \<lparr>config_file = Some (''version: 2023.12.31.5'' @ [LF]), changelog_file = None, trace = []\<rparr>
     = ''2024.01.01.1''
   \<and> auto_version \<lparr>now = \<lparr>year = 2024, month = 1, day = 1\<rparr>, http_response = Inl URLError,
                  exit_status = (\<lambda>t c. 0)\<rparr>
     \<lparr>config_file = Some (''version: 2024.01.01.beta'' @ [LF]), changelog_file = None, trace = []\<rparr>
     = ''2024.01.01.2''"
proof -
  let ?e = "\<lparr>now = \<lparr>year = 2024, month = 1, day = 1\<rparr>, http_response = Inl URLError,
             exit_status = (\<lambda>t c. 0)\<rparr>"
  let ?w1 = "\<lparr>config_file = Some (''version: 2024.01.01.1'' @ [LF]), changelog_file = None, trace = []\<rparr>"
  let ?w2 = "\<lparr>config_file = Some (''version: 2023.12.31.5'' @ [LF]), changelog_file = None, trace = []\<rparr>"
  let ?w3 = "\<lparr>config_file = Some (''version: 2024.01.01.beta'' @ [LF]), changelog_file = None, trace = []\<rparr>"
  have n: "now ?e = \<lparr>year = 2024, month = 1, day = 1\<rparr>" by simp
  have d1: "detect_config_version ?w1 = ''2024.01.01.1''" by code_simp
  have d2: "detect_config_version ?w2 = ''2023.12.31.5''" by code_simp
  have d3: "startswith (detect_config_version ?w3) (strftime_Ymd (now ?e))
            \<and> py_int (last (split_on CHR ''.'' (detect_config_version ?w3))) = None"
    by code_simp
  have s: "strftime_Ymd (now ?e) @ ''.2'' = ''2024.01.01.2''" by code_simp
  show ?thesis
    using auto_version_examples_and_default[of ?e ?w1] auto_version_examples_and_default[of ?e ?w2]
      auto_version_examples_and_default[of ?e ?w3] n d1 d2 d3 s
    by simp
qed

section \<open>Facts about the request, the resolution and the run\<close>

lemma release_of_payload_failed:
  "request_failed (Inr data) \<Longrightarrow> \<exists>x. release_of_payload data = Inl x \<and> is_Exception x"
  by (auto simp: request_failed_def release_of_payload_def dict_get_def py_or_def is_Exception_def
           split: json.splits option.splits)

lemma fetch_failed:
  assumes "request_failed (http_response e)"
  shows "fetch_latest_release e owner repo w
         = (Inr None, w\<lparr>trace := trace w @
              [HttpGet (releases_latest_url owner repo)]\<rparr>)"
proof (cases "http_response e")
  case (Inl x)
  then have "is_Exception x" using assms by (simp add: request_failed_def)
  then show ?thesis using Inl
    by (simp add: fetch_latest_release_def http_json_def Let_def)
next
  case (Inr data)
  then obtain x where "release_of_payload data = Inl x" "is_Exception x"
    using assms release_of_payload_failed by metis
  then show ?thesis using Inr
    by (simp add: fetch_latest_release_def http_json_def Let_def)
qed

lemma auto_version_trace: "auto_version e (w\<lparr>trace := t\<rparr>) = auto_version e w"
  by (simp add: auto_version_def detect_config_version_def)

lemma sh_world: "snd (sh e cmd check w) = w\<lparr>trace := trace w @ [Run cmd]\<rparr>"
  by (simp add: sh_def Let_def)

lemma adds_cmds_refl: "adds_cmds P w w"
  by (auto simp: adds_cmds_def intro: exI[of _ "[]"])

lemma adds_cmds_same_trace: "trace w' = trace w \<Longrightarrow> adds_cmds P w w'"
  by (auto simp: adds_cmds_def intro: exI[of _ "[]"])

lemma adds_cmds_trans: "adds_cmds P w w' \<Longrightarrow> adds_cmds P w' w'' \<Longrightarrow> adds_cmds P w w''"
  unfolding adds_cmds_def
proof -
  assume "\<exists>c. trace w' = trace w @ map Run c \<and> (\<forall>x\<in>set c. P x)"
    "\<exists>c. trace w'' = trace w' @ map Run c \<and> (\<forall>x\<in>set c. P x)"
  then obtain c1 c2 where "trace w' = trace w @ map Run c1" "\<forall>x\<in>set c1. P x"
    "trace w'' = trace w' @ map Run c2" "\<forall>x\<in>set c2. P x"
    by blast
  then have "trace w'' = trace w @ map Run (c1 @ c2) \<and> (\<forall>x\<in>set (c1 @ c2). P x)" by auto
  then show "\<exists>c. trace w'' = trace w @ map Run c \<and> (\<forall>x\<in>set c. P x)" by blast
qed

lemma adds_cmds_bind:
  assumes "adds_cmds P w (snd m)" "\<And>x w'. adds_cmds P w' (snd (f x w'))"
  shows "adds_cmds P w (snd (bind m f))"
proof (cases m)
  case (Pair r w1)
  show ?thesis
  proof (cases r)
    case (Inl x)
    then show ?thesis using Pair assms(1) by (simp add: bind_def)
  next
    case (Inr y)
    then have "bind m f = f y w1" using Pair by (simp add: bind_def)
    moreover have "adds_cmds P w w1" using assms(1) Pair by simp
    ultimately show ?thesis using assms(2)[of w1 y] adds_cmds_trans by metis
  qed
qed

lemma adds_cmds_sh: "P cmd \<Longrightarrow> adds_cmds P w (snd (sh e cmd check w))"
  by (auto simp: adds_cmds_def sh_world intro: exI[of _ "[cmd]"])

lemma adds_cmds_write_config: "adds_cmds P w (snd (write_config_version v dry w))"
  by (rule adds_cmds_same_trace)
     (simp add: write_config_version_def Let_def split: option.splits)

lemma adds_cmds_write_changelog: "adds_cmds P w (snd (write_changelog t dry w))"
  by (rule adds_cmds_same_trace)
     (simp add: write_changelog_def Let_def split: json.splits)

lemma adds_cmds_git_add_commit:
  "adds_cmds (tags_only tag) w (snd (git_add_commit e [CONFIG_PATH, CHANGELOG_PATH] msg dry w))"
  unfolding git_add_commit_def
  by (auto intro!: adds_cmds_bind adds_cmds_sh adds_cmds_refl simp: tags_only_def)

lemma adds_cmds_git_push: "adds_cmds (tags_only tag) w (snd (git_push e dry w))"
  unfolding git_push_def
  by (auto intro!: adds_cmds_sh adds_cmds_refl simp: tags_only_def)

lemma adds_cmds_git_force_tag_and_push:
  "adds_cmds (tags_only tag) w (snd (git_force_tag_and_push e tag push dry w))"
  unfolding git_force_tag_and_push_def
  by (auto intro!: adds_cmds_bind adds_cmds_sh adds_cmds_refl simp: tags_only_def)

lemma adds_cmds_publish:
  "adds_cmds (tags_only tag) w (snd (publish a e (ver, tag, notes) w))"
  unfolding publish_def
  by (auto intro!: adds_cmds_bind adds_cmds_write_config adds_cmds_write_changelog
                   adds_cmds_git_add_commit adds_cmds_git_push
                   adds_cmds_git_force_tag_and_push adds_cmds_refl)

lemma adds_cmds_no_http:
  "adds_cmds P w w' \<Longrightarrow> filter is_HttpGet (trace w') = filter is_HttpGet (trace w)"
  by (auto simp: adds_cmds_def is_HttpGet_def filter_empty_conv)

lemma adds_cmds_prefix: "adds_cmds P w w' \<Longrightarrow> prefix (trace w) (trace w')"
  by (auto simp: adds_cmds_def)

lemma adds_cmds_tag:
  assumes "adds_cmds (tags_only tag) w w'" "Run [''git'', ''tag'', t] \<in> set (trace w')"
  shows "Run [''git'', ''tag'', t] \<in> set (trace w) \<or> t = tag"
proof -
  from assms(1) obtain cmds where c: "trace w' = trace w @ map Run cmds"
    "\<forall>c\<in>set cmds. tags_only tag c" by (auto simp: adds_cmds_def)
  show ?thesis
  proof (cases "Run [''git'', ''tag'', t] \<in> set (trace w)")
    case True then show ?thesis by simp
  next
    case False
    then have "[''git'', ''tag'', t] \<in> set cmds" using assms(2) c(1) by auto
    then have "tags_only tag [''git'', ''tag'', t]" using c(2) by blast
    then show ?thesis by (simp add: tags_only_def)
  qed
qed


lemma config_bind:
  assumes "config_file (snd m) = c" "\<And>x w'. config_file (snd (f x w')) = config_file w'"
  shows "config_file (snd (bind m f)) = c"
  using assms by (cases m) (auto simp: bind_def split: sum.splits)

lemma config_sh: "config_file (snd (sh e cmd check w)) = config_file w"
  by (simp add: sh_world)

lemma config_write_changelog: "config_file (snd (write_changelog t dry w)) = config_file w"
  by (simp add: write_changelog_def Let_def split: json.splits)

lemma config_git_add_commit: "config_file (snd (git_add_commit e files msg dry w)) = config_file w"
  unfolding git_add_commit_def
  by (auto intro!: config_bind config_sh)

lemma config_git_push: "config_file (snd (git_push e dry w)) = config_file w"
  unfolding git_push_def by (auto intro!: config_sh)

lemma config_git_force_tag_and_push:
  "config_file (snd (git_force_tag_and_push e tag push dry w)) = config_file w"
  unfolding git_force_tag_and_push_def
  by (auto intro!: config_bind config_sh)

lemma config_publish:
  "config_file (snd (publish a e (ver, tag, notes) w))
   = config_file (snd (write_config_version ver (dry_run a) w))"
  unfolding publish_def
  by (auto intro!: config_bind config_write_changelog config_git_add_commit config_git_push
                   config_git_force_tag_and_push)

lemma config_write_config:
  "config_file (snd (write_config_version ver dry w))
   = (if dry then config_file w
      else map_option (\<lambda>text. concat (rewrite_lines ver (readlines text))) (config_file w))"
  by (simp add: write_config_version_def Let_def split: option.splits)

lemma digit_chars: "\<forall>d\<in>set [0 ..< 10]. is_digit (digit_char d)"
  by code_simp

lemma digit_char_is_digit: "d < 10 \<Longrightarrow> is_digit (digit_char d)"
  using digit_chars by simp

lemma str_nat_digits: "str_nat n \<noteq> [] \<and> (\<forall>c\<in>set (str_nat n). is_digit c)"
proof (induction n rule: str_nat.induct)
  case (1 n)
  show ?case
  proof (cases "n < 10")
    case True
    then show ?thesis by (simp add: str_nat.simps[of n] digit_char_is_digit)
  next
    case False
    then have "is_digit (digit_char (n mod 10))" by (intro digit_char_is_digit) simp
    then show ?thesis using False 1 by (simp add: str_nat.simps[of n])
  qed
qed

lemma zero_pad_hd: "s \<noteq> [] \<Longrightarrow> is_digit (hd s) \<Longrightarrow> is_digit (hd (zero_pad k s))"
  by (cases "k - length s") (simp_all add: zero_pad_def is_digit_def)

lemma strftime_hd: "strftime_Ymd d \<noteq> [] \<and> is_digit (hd (strftime_Ymd d))"
proof -
  have s: "str_nat (year d) \<noteq> []" "is_digit (hd (str_nat (year d)))"
    using str_nat_digits[of "year d"] by (auto simp: hd_in_set)
  have z: "zero_pad 4 (str_nat (year d)) \<noteq> []" using s(1) by (simp add: zero_pad_def)
  have "is_digit (hd (zero_pad 4 (str_nat (year d))))" using s by (rule zero_pad_hd)
  then show ?thesis using z by (simp add: strftime_Ymd_def)
qed

lemma startswith_v: "startswith s ''v'' = (s \<noteq> [] \<and> hd s = CHR ''v'')"
  by (cases s) (auto simp: startswith_def)

lemma auto_version_no_v: "\<not> startswith (auto_version e w) ''v''"
proof -
  have "auto_version e w \<noteq> [] \<and> hd (auto_version e w) = hd (strftime_Ymd (now e))"
    using strftime_hd[of "now e"] by (simp add: auto_version_def Let_def)
  moreover have "hd (strftime_Ymd (now e)) \<noteq> CHR ''v''"
    using strftime_hd[of "now e"] by (auto simp: is_digit_def)
  ultimately show ?thesis by (simp add: startswith_v)
qed

lemma rstrip_prefix: "prefix (rstrip P x) x"
proof -
  have "rev x = takeWhile P (rev x) @ dropWhile P (rev x)" by simp
  then have "x = rev (dropWhile P (rev x)) @ rev (takeWhile P (rev x))"
    by (metis rev_append rev_rev_ident)
  then show ?thesis unfolding rstrip_def by (metis prefixI)
qed

lemma strip_v_no_v:
  assumes "lstrip_chars ''v'' tag = [] \<or> \<not> isspace (hd (lstrip_chars ''v'' tag))"
  shows "\<not> startswith (strip_v tag) ''v''"
proof -
  let ?x = "lstrip_chars ''v'' tag"
  have sv: "strip_v tag = rstrip isspace ?x"
    using assms by (simp add: strip_v_def py_strip_def strip_def lstrip_id)
  have nv: "?x = [] \<or> hd ?x \<noteq> CHR ''v''"
    using hd_dropWhile[of "\<lambda>c. c \<in> set ''v''" tag] by (auto simp: lstrip_chars_def lstrip_def)
  obtain r where r: "?x = rstrip isspace ?x @ r" using rstrip_prefix[of isspace ?x]
    by (auto simp: prefix_def)
  show ?thesis
  proof (cases "rstrip isspace ?x = []")
    case True then show ?thesis by (simp add: sv startswith_v)
  next
    case False
    then have "hd ?x = hd (rstrip isspace ?x)" using r by (metis hd_append2)
    moreover have "?x \<noteq> []" using False r by auto
    ultimately show ?thesis using nv by (simp add: sv startswith_v)
  qed
qed


lemma fetch_world:
  "snd (fetch_latest_release e owner repo w)
   = w\<lparr>trace := trace w @ [HttpGet (releases_latest_url owner repo)]\<rparr>"
  by (simp add: fetch_latest_release_def http_json_def Let_def split: sum.splits)

lemma resolve_world:
  "snd (resolve_version a e w)
   = (if version_given a then w
      else w\<lparr>trace := trace w @ [HttpGet (releases_latest_url OWNER REPO)]\<rparr>)"
proof (cases "version_given a")
  case True
  then show ?thesis by (simp add: resolve_version_def version_given_def Let_def)
next
  case False
  obtain r w' where f: "fetch_latest_release e OWNER REPO w = (r, w')" by (cases "fetch_latest_release e OWNER REPO w")
  then have w': "w' = w\<lparr>trace := trace w @ [HttpGet (releases_latest_url OWNER REPO)]\<rparr>"
    using fetch_world[of e OWNER REPO w] by simp
  have "snd (resolve_version a e w) = w'"
    using False f
    by (auto simp: resolve_version_def version_given_def bind_def Let_def
             split: sum.splits option.splits prod.splits)
  then show ?thesis using False w' by simp
qed

lemma resolve_explicit:
  assumes "version a = Some t" "t \<noteq> []"
  shows "resolve_version a e w
         = (Inr (if t \<noteq> ''auto'' then t else auto_version e w,
                 ''v'' @ (if t \<noteq> ''auto'' then t else auto_version e w),
                 py_or (JStr (notes_arg a))
                   (JStr (''# '' @ ''v'' @ (if t \<noteq> ''auto'' then t else auto_version e w)
                          @ [LF, LF] @ ''Manual release.''))), w)"
  using assms by (simp add: resolve_version_def Let_def)

lemma resolve_fallback:
  assumes "\<not> version_given a" "request_failed (http_response e)"
  shows "resolve_version a e w
           = (Inr (auto_version e w, ''v'' @ auto_version e w,
                   py_or (JStr (notes_arg a))
                     (JStr (''# '' @ ''v'' @ auto_version e w @ [LF, LF]
                            @ ''Auto fallback (no releases in repo).''))),
              w\<lparr>trace := trace w @ [HttpGet (releases_latest_url OWNER REPO)]\<rparr>)"
proof -
  have "\<not> (version a \<noteq> None \<and> version a \<noteq> Some [])"
    using assms(1) by (simp add: version_given_def)
  then show ?thesis
    using fetch_failed[OF assms(2)]
    by (auto simp: resolve_version_def bind_def auto_version_trace Let_def)
qed

lemma release_of_payload_tag:
  "release_of_payload data = Inr (tag, body) \<Longrightarrow> startswith tag ''v''"
  by (auto simp: release_of_payload_def Let_def startswith_def
           split: sum.splits json.splits if_splits)

lemma fetch_ok_tag:
  "fst (fetch_latest_release e owner repo w) = Inr (Some (tag, body)) \<Longrightarrow> startswith tag ''v''"
  by (auto simp: fetch_latest_release_def http_json_def Let_def
           split: sum.splits if_splits dest: release_of_payload_tag)

lemma fetch_ok_not_failed:
  "fst (fetch_latest_release e owner repo w) = Inr (Some r) \<Longrightarrow> \<not> request_failed (http_response e)"
  using fetch_failed[of e owner repo w] by auto

lemma fetch_not_failed:
  assumes "\<not> request_failed (http_response e)"
  shows "fst (fetch_latest_release e owner repo w) \<noteq> Inr None"
proof (cases "http_response e")
  case (Inl x)
  then have "\<not> is_Exception x" using assms by (simp add: request_failed_def)
  then have "\<not> is_HTTPError x" by (cases x) (simp_all add: is_Exception_def is_HTTPError_def)
  then show ?thesis using Inl \<open>\<not> is_Exception x\<close>
    by (simp add: fetch_latest_release_def http_json_def Let_def)
next
  case (Inr data)
  then have "\<exists>r. release_of_payload data = Inr r"
    using assms
    by (auto simp: request_failed_def release_of_payload_def dict_get_def py_or_def Let_def
             split: json.splits option.splits)
  then show ?thesis using Inr
    by (auto simp: fetch_latest_release_def http_json_def Let_def)
qed

lemma resolve_remote:
  assumes "\<not> version_given a" "\<not> request_failed (http_response e)"
    "resolve_version a e w = (Inr (ver, tag, notes), w1)"
  shows "ver = strip_v tag \<and> startswith tag ''v''"
proof -
  have nv: "\<not> (version a \<noteq> None \<and> version a \<noteq> Some [])"
    using assms(1) by (simp add: version_given_def)
  obtain r w' where f: "fetch_latest_release e OWNER REPO w = (r, w')"
    by (cases "fetch_latest_release e OWNER REPO w")
  have "r \<noteq> Inr None" using fetch_not_failed[OF assms(2), of OWNER REPO w] f by simp
  moreover have "\<forall>x. r \<noteq> Inl x"
    using assms(3) nv f by (auto simp: resolve_version_def bind_def)
  ultimately have "\<exists>t b. r = Inr (Some (t, b))"
  proof (cases r)
    case (Inl x)
    then show ?thesis using \<open>\<forall>x. r \<noteq> Inl x\<close> by simp
  next
    case (Inr o1)
    then show ?thesis using \<open>r \<noteq> Inr None\<close> by (cases o1) auto
  qed
  then obtain t b where r: "r = Inr (Some (t, b))" by blast
  then have tv: "startswith t ''v''" using fetch_ok_tag[of e OWNER REPO w t b] f by simp
  have "ver = strip_v t \<and> tag = t"
    using assms(3) nv f r by (auto simp: resolve_version_def bind_def Let_def)
  then show ?thesis using tv by simp
qed


lemma main_Inl: "resolve_version a e w = (Inl x, w1) \<Longrightarrow> main a e w = (Inl x, w1)"
  by (simp add: main_def bind_def)

lemma main_Inr: "resolve_version a e w = (Inr plan, w1) \<Longrightarrow> main a e w = publish a e plan w1"
  by (simp add: main_def bind_def)

lemma main_prefix: "prefix (trace (snd (resolve_version a e w))) (trace (snd (main a e w)))"
proof (cases "resolve_version a e w")
  case (Pair r w1)
  show ?thesis
  proof (cases r)
    case (Inl x)
    then show ?thesis using Pair main_Inl[of a e w x w1] by simp
  next
    case (Inr plan)
    obtain ver tag nts where p: "plan = (ver, tag, nts)" by (cases plan)
    have "prefix (trace w1) (trace (snd (publish a e (ver, tag, nts) w1)))"
      using adds_cmds_publish by (rule adds_cmds_prefix)
    then show ?thesis using Pair Inr p main_Inr[of a e w plan w1] by simp
  qed
qed

lemma resolve_tag_v:
  assumes "resolve_version a e w = (Inr (ver, tag, notes), w1)"
  shows "startswith tag ''v''"
proof (cases "version_given a")
  case True
  then obtain t where t: "version a = Some t" "t \<noteq> []" by (auto simp: version_given_def)
  show ?thesis using assms resolve_explicit[OF t, of e w] by (auto simp: startswith_def)
next
  case False
  show ?thesis
  proof (cases "request_failed (http_response e)")
    case True
    then show ?thesis using assms resolve_fallback[OF False True, of w]
      by (auto simp: startswith_def)
  next
    case f: False
    then show ?thesis using resolve_remote[OF False f assms] by simp
  qed
qed

lemma resolve_keeps_commands:
  "Run c \<in> set (trace (snd (resolve_version a e w))) \<Longrightarrow> Run c \<in> set (trace w)"
  by (auto simp: resolve_world split: if_splits)

lemma resolve_keeps_config: "config_file (snd (resolve_version a e w)) = config_file w"
  by (simp add: resolve_world)

section \<open>A request that fails\<close>

text \<open>
  C5: whenever the request fails (\<open>request_failed\<close>: an HTTP error such as not-found, a
  network error, a payload that cannot be decoded or parsed, a payload without a usable
  tag), \<open>fetch_latest_release\<close> raises nothing and returns the absent pair, and the
  resolution of a run without explicit version takes the generated version, its tag and
  the fallback notes.
\<close>

theorem failed_request_degrades_to_auto_version:
  assumes "request_failed (http_response e)"
  shows "fetch_latest_release e owner repo w
           = (Inr None, w\<lparr>trace := trace w @ [HttpGet (releases_latest_url owner repo)]\<rparr>)
       \<and> (\<not> version_given a \<longrightarrow>
            resolve_version a e w
              = (Inr (auto_version e w, ''v'' @ auto_version e w,
                      py_or (JStr (notes_arg a))
                        (JStr (''# '' @ ''v'' @ auto_version e w @ [LF, LF]
                               @ ''Auto fallback (no releases in repo).''))),
                 w\<lparr>trace := trace w @ [HttpGet (releases_latest_url OWNER REPO)]\<rparr>))"
  using fetch_failed[OF assms] resolve_fallback[OF _ assms] by blast

theorem failed_request_degrades_to_auto_version_witness:
  "fst (resolve_version
     \<lparr>version = None, notes_arg = [], latest_only = False, no_push = False, dry_run = False\<rparr>
     \<lparr>now = \<lparr>year = 2024, month = 1, day = 1\<rparr>, http_response = Inl (HTTPError 404),
      exit_status = (\<lambda>t c. 0)\<rparr>
     \<lparr>config_file = None, changelog_file = None, trace = []\<rparr>)
   = Inr (''2024.01.01.1'', ''v2024.01.01.1'',
          JStr (''# v2024.01.01.1'' @ [LF, LF] @ ''Auto fallback (no releases in repo).''))
   \<and> fst (resolve_version
     \<lparr>version = None, notes_arg = [], latest_only = False, no_push = False, dry_run = False\<rparr>
     \<lparr>now = \<lparr>year = 2024, month = 1, day = 1\<rparr>,
      http_response = Inr (JObj [(''body'', JStr ''text'')]), exit_status = (\<lambda>t c. 0)\<rparr>
     \<lparr>config_file = None, changelog_file = None, trace = []\<rparr>)
   = Inr (''2024.01.01.1'', ''v2024.01.01.1'',
          JStr (''# v2024.01.01.1'' @ [LF, LF] @ ''Auto fallback (no releases in repo).''))"
proof -
  let ?a = "\<lparr>version = None, notes_arg = [], latest_only = False, no_push = False, dry_run = False\<rparr>"
  let ?e1 = "\<lparr>now = \<lparr>year = 2024, month = 1, day = 1\<rparr>, http_response = Inl (HTTPError 404),
              exit_status = (\<lambda>t c. 0)\<rparr>"
  let ?e2 = "\<lparr>now = \<lparr>year = 2024, month = 1, day = 1\<rparr>,
              http_response = Inr (JObj [(''body'', JStr ''text'')]), exit_status = (\<lambda>t c. 0)\<rparr>"
  let ?w = "\<lparr>config_file = None, changelog_file = None, trace = []\<rparr>"
  have f1: "request_failed (http_response ?e1)" by code_simp
  have f2: "request_failed (http_response ?e2)" by code_simp
  have nv: "\<not> version_given ?a" by code_simp
  have a1: "auto_version ?e1 ?w = ''2024.01.01.1''" by code_simp
  have a2: "auto_version ?e2 ?w = ''2024.01.01.1''" by code_simp
  have n: "py_or (JStr (notes_arg ?a))
             (JStr (''# '' @ ''v'' @ ''2024.01.01.1'' @ [LF, LF] @ ''Auto fallback (no releases in repo).''))
           = JStr (''# v2024.01.01.1'' @ [LF, LF] @ ''Auto fallback (no releases in repo).'')"
    by code_simp
  show ?thesis
    using failed_request_degrades_to_auto_version[OF f1, of OWNER REPO ?w ?a]
      failed_request_degrades_to_auto_version[OF f2, of OWNER REPO ?w ?a] nv a1 a2 n
    by simp
qed

section \<open>An explicit version\<close>

text \<open>
  C3, as stated, fails for the empty value: with \<open>--version ""\<close> the option is present,
  yet the release registry is queried and the version is that of the latest release.
\<close>

theorem explicit_version_never_queries_remote_counterexample:
  "filter is_HttpGet (trace (snd (main
     \<lparr>version = Some [], notes_arg = [], latest_only = False, no_push = True, dry_run = True\<rparr>
     \<lparr>now = \<lparr>year = 2024, month = 1, day = 1\<rparr>,
      http_response = Inr (JObj [(''tag_name'', JStr ''v9.9''), (''body'', JStr ''text'')]),
      exit_status = (\<lambda>t c. 0)\<rparr>
     \<lparr>config_file = Some (''version: 1'' @ [LF]), changelog_file = None, trace = []\<rparr>)))
   = [HttpGet ''https://api.github.com/repos/Nanako718/ha-fusion/releases/latest'']
   \<and> fst (resolve_version
     \<lparr>version = Some [], notes_arg = [], latest_only = False, no_push = True, dry_run = True\<rparr>
     \<lparr>now = \<lparr>year = 2024, month = 1, day = 1\<rparr>,
      http_response = Inr (JObj [(''tag_name'', JStr ''v9.9''), (''body'', JStr ''text'')]),
      exit_status = (\<lambda>t c. 0)\<rparr>
     \<lparr>config_file = Some (''version: 1'' @ [LF]), changelog_file = None, trace = []\<rparr>)
   = Inr (''9.9'', ''v9.9'', JStr ''text'')"
  by code_simp

text \<open>
  C3, amended: whenever \<open>--version\<close> is given with a value that is not empty, the
  resolution leaves the world as it is, and the whole run adds no HTTP request to the
  trace; the version is the given token, except that \<open>auto\<close> is replaced by the
  generated version.
\<close>

theorem explicit_version_never_queries_remote:
  assumes "version a = Some t" and "t \<noteq> []"
  shows "resolve_version a e w
         = (Inr (if t \<noteq> ''auto'' then t else auto_version e w,
                 ''v'' @ (if t \<noteq> ''auto'' then t else auto_version e w),
                 py_or (JStr (notes_arg a))
                   (JStr (''# '' @ ''v'' @ (if t \<noteq> ''auto'' then t else auto_version e w)
                          @ [LF, LF] @ ''Manual release.''))), w)
       \<and> filter is_HttpGet (trace (snd (main a e w))) = filter is_HttpGet (trace w)"
proof -
  note r = resolve_explicit[OF assms, of e w]
  have "adds_cmds (tags_only (''v'' @ (if t \<noteq> ''auto'' then t else auto_version e w))) w
          (snd (main a e w))"
    unfolding main_Inr[OF r] by (rule adds_cmds_publish)
  then have "filter is_HttpGet (trace (snd (main a e w))) = filter is_HttpGet (trace w)"
    by (rule adds_cmds_no_http)
  then show ?thesis using r by blast
qed

theorem explicit_version_never_queries_remote_witness:
  "trace (snd (main
     \<lparr>version = Some ''1.2.3'', notes_arg = [], latest_only = True, no_push = False,
      dry_run = False\<rparr>
     \<lparr>now = \<lparr>year = 2024, month = 1, day = 1\<rparr>, http_response = Inl (HTTPError 404),
      exit_status = (\<lambda>t c. 0)\<rparr>
     \<lparr>config_file = Some (''version: 1'' @ [LF]), changelog_file = None, trace = []\<rparr>))
   = [Run [''git'', ''add'', ''config.yaml'', ''CHANGELOG.md''],
      Run [''git'', ''commit'', ''-m'', ''release: 1.2.3''],
      Run [''git'', ''push'']]
   \<and> filter is_HttpGet (trace (snd (main
     \<lparr>version = Some ''1.2.3'', notes_arg = [], latest_only = True, no_push = False,
      dry_run = False\<rparr>
     \<lparr>now = \<lparr>year = 2024, month = 1, day = 1\<rparr>, http_response = Inl (HTTPError 404),
      exit_status = (\<lambda>t c. 0)\<rparr>
     \<lparr>config_file = Some (''version: 1'' @ [LF]), changelog_file = None, trace = []\<rparr>))) = []"
proof -
  let ?a = "\<lparr>version = Some ''1.2.3'', notes_arg = [], latest_only = True, no_push = False,
             dry_run = False\<rparr>"
  let ?e = "\<lparr>now = \<lparr>year = 2024, month = 1, day = 1\<rparr>, http_response = Inl (HTTPError 404),
             exit_status = (\<lambda>t c. 0)\<rparr>"
  let ?w = "\<lparr>config_file = Some (''version: 1'' @ [LF]), changelog_file = None, trace = []\<rparr>"
  have h1: "version ?a = Some ''1.2.3''" by simp
  have h2: "''1.2.3'' \<noteq> []" by simp
  have t: "trace (snd (main ?a ?e ?w))
           = [Run [''git'', ''add'', ''config.yaml'', ''CHANGELOG.md''],
              Run [''git'', ''commit'', ''-m'', ''release: 1.2.3''],
              Run [''git'', ''push'']]"
    by code_simp
  show ?thesis
    using explicit_version_never_queries_remote[OF h1 h2, of ?e ?w] t by simp
qed

text \<open>
  C9: a run with \<open>--version ""\<close> is the run without \<open>--version\<close>: same resolution, same
  result and same effects, and its trace continues with the request to the release
  registry.
\<close>

theorem empty_version_behaves_as_omitted:
  "resolve_version (a\<lparr>version := Some []\<rparr>) e w = resolve_version (a\<lparr>version := None\<rparr>) e w
   \<and> main (a\<lparr>version := Some []\<rparr>) e w = main (a\<lparr>version := None\<rparr>) e w
   \<and> prefix (trace w @ [HttpGet (releases_latest_url OWNER REPO)])
        (trace (snd (main (a\<lparr>version := Some []\<rparr>) e w)))"
proof -
  have r: "resolve_version (a\<lparr>version := Some []\<rparr>) e w = resolve_version (a\<lparr>version := None\<rparr>) e w"
    by (simp add: resolve_version_def Let_def cong: option.case_cong prod.case_cong)
  have p: "publish (a\<lparr>version := Some []\<rparr>) e = publish (a\<lparr>version := None\<rparr>) e"
    by (rule ext)+ (simp add: publish_def cong: if_cong prod.case_cong)
  have m: "main (a\<lparr>version := Some []\<rparr>) e w = main (a\<lparr>version := None\<rparr>) e w"
    by (simp add: main_def r p)
  have "\<not> version_given (a\<lparr>version := Some []\<rparr>)" by (simp add: version_given_def)
  then have "trace (snd (resolve_version (a\<lparr>version := Some []\<rparr>) e w))
             = trace w @ [HttpGet (releases_latest_url OWNER REPO)]"
    by (simp add: resolve_world)
  then have "prefix (trace w @ [HttpGet (releases_latest_url OWNER REPO)])
               (trace (snd (main (a\<lparr>version := Some []\<rparr>) e w)))"
    using main_prefix[of "a\<lparr>version := Some []\<rparr>" e w] by simp
  then show ?thesis using r m by blast
qed

theorem empty_version_behaves_as_omitted_witness:
  "main \<lparr>version = Some [], notes_arg = [], latest_only = False, no_push = True, dry_run = True\<rparr>
     \<lparr>now = \<lparr>year = 2024, month = 1, day = 1\<rparr>, http_response = Inl (HTTPError 404),
      exit_status = (\<lambda>t c. 0)\<rparr>
     \<lparr>config_file = Some (''version: 1'' @ [LF]), changelog_file = None, trace = []\<rparr>
   = main \<lparr>version = None, notes_arg = [], latest_only = False, no_push = True, dry_run = True\<rparr>
     \<lparr>now = \<lparr>year = 2024, month = 1, day = 1\<rparr>, http_response = Inl (HTTPError 404),
      exit_status = (\<lambda>t c. 0)\<rparr>
     \<lparr>config_file = Some (''version: 1'' @ [LF]), changelog_file = None, trace = []\<rparr>"
  using empty_version_behaves_as_omitted
    [of "\<lparr>version = None, notes_arg = [], latest_only = False, no_push = True, dry_run = True\<rparr>"
        "\<lparr>now = \<lparr>year = 2024, month = 1, day = 1\<rparr>, http_response = Inl (HTTPError 404),
          exit_status = (\<lambda>t c. 0)\<rparr>"
        "\<lparr>config_file = Some (''version: 1'' @ [LF]), changelog_file = None, trace = []\<rparr>"]
  by simp

section \<open>The prefix of tag and version\<close>

text \<open>
  C2, as stated, fails: an explicit version is written as it is given. With
  \<open>--version v1.0\<close> the configuration file receives \<open>version: v1.0\<close>, which
  \<open>detect_config_version\<close> reads as \<open>v1.0\<close>, and the tag is \<open>vv1.0\<close>.
\<close>

theorem tag_has_v_and_version_by_source_counterexample:
  "main \<lparr>version = Some ''v1.0'', notes_arg = [], latest_only = False, no_push = False,
         dry_run = False\<rparr>
     \<lparr>now = \<lparr>year = 2024, month = 1, day = 1\<rparr>, http_response = Inl (HTTPError 404),
      exit_status = (\<lambda>t c. 0)\<rparr>
     \<lparr>config_file = Some (''version: 1'' @ [LF]), changelog_file = None, trace = []\<rparr>
   = (Inr (),
      \<lparr>config_file = Some (''version: v1.0'' @ [LF]),
       changelog_file = Some (''# vv1.0'' @ [LF, LF] @ ''Manual release.''),
       trace = [Run [''git'', ''add'', ''config.yaml'', ''CHANGELOG.md''],
                Run [''git'', ''commit'', ''-m'', ''release: v1.0''],
                Run [''git'', ''tag'', ''-d'', ''vv1.0''],
                Run [''git'', ''push'', ''origin'', '':refs/tags/vv1.0''],
                Run [''git'', ''tag'', ''vv1.0''],
                Run [''git'', ''push''],
                Run [''git'', ''push'', ''origin'', ''vv1.0'']]\<rparr>)
   \<and> detect_config_version
        \<lparr>config_file = Some (''version: v1.0'' @ [LF]), changelog_file = None, trace = []\<rparr>
      = ''v1.0''
   \<and> startswith ''v1.0'' ''v''"
  by code_simp

text \<open>
  C2, amended. If the resolution raises, the run stops there: the configuration file is
  untouched and no tag is created. Otherwise, with \<open>(ver, tag, notes)\<close> resolved:
  the tag starts with \<open>v\<close>, and every tag the run creates is \<open>tag\<close>; the configuration
  file is rewritten with \<open>ver\<close> (left alone in a dry run); and \<open>ver\<close> is
  \<^item> the given token itself when \<open>--version\<close> has a value other than \<open>auto\<close> (so it has
    no leading \<open>v\<close> exactly when the token has none),
  \<^item> the generated version, which never starts with \<open>v\<close>, for \<open>--version auto\<close> and
    for the fallback after a failed request,
  \<^item> \<open>strip_v tag\<close> for a release that was found, which does not start with \<open>v\<close>
    when no whitespace follows the leading \<open>v\<close>s of the tag.
\<close>

theorem tag_has_v_and_version_by_source:
  "(resolve_version a e w = (Inl x, w1) \<longrightarrow>
      main a e w = (Inl x, w1)
      \<and> config_file w1 = config_file w
      \<and> (\<forall>t. Run [''git'', ''tag'', t] \<in> set (trace w1)
               \<longrightarrow> Run [''git'', ''tag'', t] \<in> set (trace w)))
   \<and> (resolve_version a e w = (Inr (ver, tag, notes), w1) \<longrightarrow>
      main a e w = publish a e (ver, tag, notes) w1
      \<and> startswith tag ''v''
      \<and> (\<forall>t. Run [''git'', ''tag'', t] \<in> set (trace (snd (main a e w)))
               \<longrightarrow> Run [''git'', ''tag'', t] \<in> set (trace w) \<or> t = tag)
      \<and> config_file (snd (main a e w))
          = (if dry_run a then config_file w
             else map_option (\<lambda>text. concat (rewrite_lines ver (readlines text))) (config_file w))
      \<and> (version_given a \<and> version a \<noteq> Some ''auto'' \<longrightarrow> version a = Some ver)
      \<and> (version a = Some ''auto'' \<or> (\<not> version_given a \<and> request_failed (http_response e))
            \<longrightarrow> ver = auto_version e w \<and> \<not> startswith ver ''v'')
      \<and> (\<not> version_given a \<and> \<not> request_failed (http_response e)
            \<longrightarrow> ver = strip_v tag
                \<and> (lstrip_chars ''v'' tag = [] \<or> \<not> isspace (hd (lstrip_chars ''v'' tag))
                     \<longrightarrow> \<not> startswith ver ''v'')))"
proof -
  have A: "resolve_version a e w = (Inl x, w1) \<longrightarrow>
      main a e w = (Inl x, w1)
      \<and> config_file w1 = config_file w
      \<and> (\<forall>t. Run [''git'', ''tag'', t] \<in> set (trace w1)
               \<longrightarrow> Run [''git'', ''tag'', t] \<in> set (trace w))"
  proof
    assume r: "resolve_version a e w = (Inl x, w1)"
    have 1: "main a e w = (Inl x, w1)" using r by (rule main_Inl)
    have 2: "config_file w1 = config_file w" using resolve_keeps_config[of a e w] r by simp
    have 3: "\<forall>t. Run [''git'', ''tag'', t] \<in> set (trace w1)
               \<longrightarrow> Run [''git'', ''tag'', t] \<in> set (trace w)"
      using resolve_keeps_commands[of _ a e w] r by simp
    show "main a e w = (Inl x, w1)
      \<and> config_file w1 = config_file w
      \<and> (\<forall>t. Run [''git'', ''tag'', t] \<in> set (trace w1)
               \<longrightarrow> Run [''git'', ''tag'', t] \<in> set (trace w))"
      using 1 2 3 by blast
  qed
  have B: "resolve_version a e w = (Inr (ver, tag, notes), w1) \<longrightarrow>
      main a e w = publish a e (ver, tag, notes) w1
      \<and> startswith tag ''v''
      \<and> (\<forall>t. Run [''git'', ''tag'', t] \<in> set (trace (snd (main a e w)))
               \<longrightarrow> Run [''git'', ''tag'', t] \<in> set (trace w) \<or> t = tag)
      \<and> config_file (snd (main a e w))
          = (if dry_run a then config_file w
             else map_option (\<lambda>text. concat (rewrite_lines ver (readlines text))) (config_file w))
      \<and> (version_given a \<and> version a \<noteq> Some ''auto'' \<longrightarrow> version a = Some ver)
      \<and> (version a = Some ''auto'' \<or> (\<not> version_given a \<and> request_failed (http_response e))
            \<longrightarrow> ver = auto_version e w \<and> \<not> startswith ver ''v'')
      \<and> (\<not> version_given a \<and> \<not> request_failed (http_response e)
            \<longrightarrow> ver = strip_v tag
                \<and> (lstrip_chars ''v'' tag = [] \<or> \<not> isspace (hd (lstrip_chars ''v'' tag))
                     \<longrightarrow> \<not> startswith ver ''v''))"
  proof
    assume r: "resolve_version a e w = (Inr (ver, tag, notes), w1)"
    have m: "main a e w = publish a e (ver, tag, notes) w1" using r by (rule main_Inr)
    have v: "startswith tag ''v''" using r by (rule resolve_tag_v)
    have c1: "config_file w1 = config_file w" using resolve_keeps_config[of a e w] r by simp
    have tg: "\<forall>t. Run [''git'', ''tag'', t] \<in> set (trace (snd (main a e w)))
               \<longrightarrow> Run [''git'', ''tag'', t] \<in> set (trace w) \<or> t = tag"
    proof (intro allI impI)
      fix t assume "Run [''git'', ''tag'', t] \<in> set (trace (snd (main a e w)))"
      then have "Run [''git'', ''tag'', t] \<in> set (trace w1) \<or> t = tag"
        unfolding m using adds_cmds_publish by (rule adds_cmds_tag[rotated])
      then show "Run [''git'', ''tag'', t] \<in> set (trace w) \<or> t = tag"
        using resolve_keeps_commands[of _ a e w] r by auto
    qed
    have cf: "config_file (snd (main a e w))
          = (if dry_run a then config_file w
             else map_option (\<lambda>text. concat (rewrite_lines ver (readlines text))) (config_file w))"
      unfolding m by (simp only: config_publish config_write_config c1)
    have ex: "version_given a \<and> version a \<noteq> Some ''auto'' \<longrightarrow> version a = Some ver"
    proof
      assume g: "version_given a \<and> version a \<noteq> Some ''auto''"
      then obtain t where t: "version a = Some t" "t \<noteq> []" "t \<noteq> ''auto''"
        by (auto simp: version_given_def)
      show "version a = Some ver"
        using r resolve_explicit[OF t(1,2), of e w] t by auto
    qed
    have au: "version a = Some ''auto'' \<or> (\<not> version_given a \<and> request_failed (http_response e))
            \<longrightarrow> ver = auto_version e w \<and> \<not> startswith ver ''v''"
    proof
      assume g: "version a = Some ''auto'' \<or> (\<not> version_given a \<and> request_failed (http_response e))"
      have "ver = auto_version e w"
      proof (cases "version a = Some ''auto''")
        case True
        then show ?thesis using r resolve_explicit[OF True, of e w] by auto
      next
        case False
        then have "\<not> version_given a" "request_failed (http_response e)" using g by simp_all
        then show ?thesis using r resolve_fallback[of a e w] by auto
      qed
      then show "ver = auto_version e w \<and> \<not> startswith ver ''v''"
        using auto_version_no_v by simp
    qed
    have re: "\<not> version_given a \<and> \<not> request_failed (http_response e)
            \<longrightarrow> ver = strip_v tag
                \<and> (lstrip_chars ''v'' tag = [] \<or> \<not> isspace (hd (lstrip_chars ''v'' tag))
                     \<longrightarrow> \<not> startswith ver ''v'')"
    proof
      assume g: "\<not> version_given a \<and> \<not> request_failed (http_response e)"
      then have "ver = strip_v tag" using r resolve_remote[of a e w ver tag "notes" w1] by simp
      then show "ver = strip_v tag
                \<and> (lstrip_chars ''v'' tag = [] \<or> \<not> isspace (hd (lstrip_chars ''v'' tag))
                     \<longrightarrow> \<not> startswith ver ''v'')"
        using strip_v_no_v[of tag] by simp
    qed
    show "main a e w = publish a e (ver, tag, notes) w1
      \<and> startswith tag ''v''
      \<and> (\<forall>t. Run [''git'', ''tag'', t] \<in> set (trace (snd (main a e w)))
               \<longrightarrow> Run [''git'', ''tag'', t] \<in> set (trace w) \<or> t = tag)
      \<and> config_file (snd (main a e w))
          = (if dry_run a then config_file w
             else map_option (\<lambda>text. concat (rewrite_lines ver (readlines text))) (config_file w))
      \<and> (version_given a \<and> version a \<noteq> Some ''auto'' \<longrightarrow> version a = Some ver)
      \<and> (version a = Some ''auto'' \<or> (\<not> version_given a \<and> request_failed (http_response e))
            \<longrightarrow> ver = auto_version e w \<and> \<not> startswith ver ''v'')
      \<and> (\<not> version_given a \<and> \<not> request_failed (http_response e)
            \<longrightarrow> ver = strip_v tag
                \<and> (lstrip_chars ''v'' tag = [] \<or> \<not> isspace (hd (lstrip_chars ''v'' tag))
                     \<longrightarrow> \<not> startswith ver ''v''))"
      using m v tg cf ex au re by (intro conjI)
  qed
  show ?thesis using A B by (rule conjI)
qed

theorem tag_has_v_and_version_by_source_witness:
  "startswith ''v1.2.3'' ''v''
   \<and> config_file (snd (main
        \<lparr>version = Some ''1.2.3'', notes_arg = [], latest_only = False, no_push = True,
         dry_run = False\<rparr>
        \<lparr>now = \<lparr>year = 2024, month = 1, day = 1\<rparr>, http_response = Inl (HTTPError 404),
         exit_status = (\<lambda>t c. 0)\<rparr>
        \<lparr>config_file = Some (''version: 1'' @ [LF]), changelog_file = None, trace = []\<rparr>))
      = Some (''version: 1.2.3'' @ [LF])
   \<and> ''9.9'' = strip_v ''v9.9'' \<and> \<not> startswith ''9.9'' ''v''"
proof -
  let ?a = "\<lparr>version = Some ''1.2.3'', notes_arg = [], latest_only = False, no_push = True,
             dry_run = False\<rparr>"
  let ?a' = "\<lparr>version = None, notes_arg = [], latest_only = False, no_push = True,
             dry_run = False\<rparr>"
  let ?e = "\<lparr>now = \<lparr>year = 2024, month = 1, day = 1\<rparr>, http_response = Inl (HTTPError 404),
             exit_status = (\<lambda>t c. 0)\<rparr>"
  let ?e' = "\<lparr>now = \<lparr>year = 2024, month = 1, day = 1\<rparr>,
              http_response = Inr (JObj [(''tag_name'', JStr ''v9.9''), (''body'', JStr ''text'')]),
              exit_status = (\<lambda>t c. 0)\<rparr>"
  let ?w = "\<lparr>config_file = Some (''version: 1'' @ [LF]), changelog_file = None, trace = []\<rparr>"
  let ?w' = "\<lparr>config_file = Some (''version: 1'' @ [LF]), changelog_file = None,
              trace = [HttpGet (releases_latest_url OWNER REPO)]\<rparr>"
  let ?n = "JStr (''# v1.2.3'' @ [LF, LF] @ ''Manual release.'')"
  have r: "resolve_version ?a ?e ?w = (Inr (''1.2.3'', ''v1.2.3'', ?n), ?w)"
    by code_simp
  have r': "resolve_version ?a' ?e' ?w = (Inr (''9.9'', ''v9.9'', JStr ''text''), ?w')"
    by code_simp
  have g: "\<not> version_given ?a' \<and> \<not> request_failed (http_response ?e')"
    by code_simp
  have l: "lstrip_chars ''v'' ''v9.9'' = [] \<or> \<not> isspace (hd (lstrip_chars ''v'' ''v9.9''))"
    by code_simp
  have d: "\<not> dry_run ?a" by simp
  have c: "map_option (\<lambda>text. concat (rewrite_lines ''1.2.3'' (readlines text))) (config_file ?w)
           = Some (''version: 1.2.3'' @ [LF])"
    by code_simp
  note T = tag_has_v_and_version_by_source[of ?a ?e ?w _ ?w "''1.2.3''" "''v1.2.3''" ?n]
  note T' = tag_has_v_and_version_by_source[of ?a' ?e' ?w _ ?w' "''9.9''" "''v9.9''" "JStr ''text''"]
  have 1: "startswith ''v1.2.3'' ''v''" using T r by blast
  have "config_file (snd (main ?a ?e ?w))
        = (if dry_run ?a then config_file ?w
           else map_option (\<lambda>text. concat (rewrite_lines ''1.2.3'' (readlines text))) (config_file ?w))"
    using T r by blast
  then have 2: "config_file (snd (main ?a ?e ?w)) = Some (''version: 1.2.3'' @ [LF])"
    using d c by (simp only: if_False)
  have 3: "''9.9'' = strip_v ''v9.9'' \<and> \<not> startswith ''9.9'' ''v''"
    using T' r' g l by blast
  show ?thesis using 1 2 3 by blast
qed

end
